theory Spec2Isabelle
  imports Complex_Main "HOL-Library.Word" "HOL-Library.Signed_Division"
begin

unbundle bit_operations_syntax

section \<open>Machine types, faults and log output\<close>

text \<open>
  The kernel sources work on fixed-width integers: \<open>u64\<close> values and moduli, a \<open>u128\<close>
  intermediate for products, \<open>s64\<close> locals in the extended Euclidean algorithm and \<open>int\<close>
  counts. Unsigned types are words; a signed 64-bit local is a 64-bit word read through
  \<open>sint\<close>, and the kernel's wrapping signed arithmetic is the word arithmetic.

  A function of the sources can end in three ways: it returns a result, it returns an error
  code (\<open>-EINVAL\<close>, \<open>-ENOMEM\<close>), or the processor raises a divide error (division by zero,
  or the quotient \<open>INT64_MIN / -1\<close>). The last two are values of \<open>error\<close>. Messages written
  with \<open>pr_warn\<close> are returned as a list of strings next to the result.
\<close>

type_synonym u8 = "8 word"
type_synonym u32 = "32 word"
type_synonym u64 = "64 word"
type_synonym u128 = "128 word"

datatype error = EINVAL | ENOMEM | DivideError

type_synonym 'a logged = "string list \<times> (error + 'a)"

section \<open>Field elements: \<open>kernel/symmetrix-galois.c\<close>\<close>

text \<open>\<open>struct galois_element { u64 value; u64 modulus; }\<close>; the field \<open>value\<close> is \<open>val\<close> here.\<close>

record galois_element =
  val :: u64
  modulus :: u64

text \<open>
  \<open>symmetrix_galois_add\<close>: the mismatch branch comes first and never divides; otherwise
  the 64-bit sum (which wraps) is reduced by \<open>a.modulus\<close>.
\<close>

definition symmetrix_galois_add :: "galois_element \<Rightarrow> galois_element \<Rightarrow> galois_element logged" where
  "symmetrix_galois_add a b =
     (if modulus a \<noteq> modulus b
      then ([''symmetrix: Galois add with different moduli''],
            Inr \<lparr>val = 0, modulus = modulus a\<rparr>)
      else if modulus a = 0 then ([], Inl DivideError)
      else ([], Inr \<lparr>val = (val a + val b) mod modulus a, modulus = modulus a\<rparr>))"

text \<open>
  \<open>symmetrix_galois_mul\<close>: \<open>temp = ((u128)a.value * b.value) % a.modulus\<close>, the product and
  the remainder taken at 128 bits, the result stored back into a \<open>u64\<close>.
\<close>

definition symmetrix_galois_mul :: "galois_element \<Rightarrow> galois_element \<Rightarrow> galois_element logged" where
  "symmetrix_galois_mul a b =
     (if modulus a \<noteq> modulus b
      then ([''symmetrix: Galois mul with different moduli''],
            Inr \<lparr>val = 0, modulus = modulus a\<rparr>)
      else if modulus a = 0 then ([], Inl DivideError)
      else ([], Inr \<lparr>val = ucast (((ucast (val a) :: u128) * ucast (val b)) mod ucast (modulus a)),
                      modulus = modulus a\<rparr>))"

text \<open>
  \<open>symmetrix_galois_pow\<close>: the \<open>while (exp > 0)\<close> loop over the state
  \<open>(result, b, exp)\<close>, started at \<open>result = 1\<close>, \<open>b = base % mod\<close>.
\<close>

function pow_loop :: "u64 \<Rightarrow> u64 \<Rightarrow> u64 \<Rightarrow> u64 \<Rightarrow> u64" where
  "pow_loop result b expn m =
     (if 0 < expn
      then pow_loop (if expn AND 1 \<noteq> 0 then ucast (((ucast result :: u128) * ucast b) mod ucast m) else result)
                    (ucast (((ucast b :: u128) * ucast b) mod ucast m))
                    (drop_bit 1 expn) m
      else result)"
  by pat_completeness auto
termination
proof (relation "measure (\<lambda>(result, b, expn, m). unat expn)")
  fix result b expn m :: u64
  assume "0 < expn"
  then have "0 < unat expn"
    by (simp add: word_less_nat_alt)
  then have "unat expn div 2 < unat expn"
    by simp
  then show "((if expn AND 1 \<noteq> 0 then ucast (((ucast result :: u128) * ucast b) mod ucast m) else result,
               ucast (((ucast b :: u128) * ucast b) mod ucast m), drop_bit 1 expn, m),
              (result, b, expn, m)) \<in> measure (\<lambda>(result, b, expn, m). unat expn)"
    by (simp add: drop_bit_eq_div unat_div)
qed simp

declare pow_loop.simps [simp del]

definition symmetrix_galois_pow :: "u64 \<Rightarrow> u64 \<Rightarrow> u64 \<Rightarrow> error + u64" where
  "symmetrix_galois_pow base expn m =
     (if m = 0 then Inl DivideError else Inr (pow_loop 1 (base mod m) expn m))"

text \<open>
  \<open>symmetrix_galois_inv\<close>: the six \<open>s64\<close> locals of the extended Euclidean loop.
  \<open>old_r / r\<close> is C's truncating division on the signed readings; the one quotient that
  does not fit, \<open>INT64_MIN / -1\<close>, is the divide error. The remainder step
  \<open>old_r - quotient * r\<close> and the coefficient updates wrap.
\<close>

definition sdiv64 :: "u64 \<Rightarrow> u64 \<Rightarrow> u64" where
  "sdiv64 a b = word_of_int (sint a sdiv sint b)"

function inv_loop :: "u64 \<Rightarrow> u64 \<Rightarrow> u64 \<Rightarrow> u64 \<Rightarrow> u64 \<Rightarrow> u64 \<Rightarrow> error + (u64 \<times> u64 \<times> u64)" where
  "inv_loop old_r r old_s s old_t t =
     (if r \<noteq> 0
      then (if old_r = - (2 ^ 63) \<and> r = - 1 then Inl DivideError
            else let quotient = sdiv64 old_r r
                 in inv_loop r (old_r - quotient * r) s (old_s - quotient * s) t (old_t - quotient * t))
      else Inr (old_r, old_s, old_t))"
  by pat_completeness auto
termination
proof (relation "measure (\<lambda>(old_r, r, old_s, s, old_t, t). nat \<bar>sint r\<bar>)")
  fix old_r r old_s s old_t t quotient :: u64
  assume "r \<noteq> 0" and q: "quotient = sdiv64 old_r r"
  then have nz: "sint r \<noteq> 0"
    by (simp add: signed_eq_0_iff)
  have "old_r - quotient * r = word_of_int (sint old_r - (sint old_r sdiv sint r) * sint r)"
    by (simp add: q sdiv64_def)
  also have "\<dots> = word_of_int (sint old_r smod sint r)"
    by (simp add: minus_sdiv_mult_eq_smod)
  finally have eq: "old_r - quotient * r = word_of_int (sint old_r smod sint r)" .
  have "\<bar>sint r\<bar> \<le> 2 ^ 63"
    using sint_range_size [of r] by (simp add: word_size abs_le_iff)
  with smod_int_range [OF nz, of "sint old_r"]
  have "- (2 ^ 63) \<le> sint old_r smod sint r" "sint old_r smod sint r < 2 ^ 63"
    by auto
  then have "sint (word_of_int (sint old_r smod sint r) :: u64) = sint old_r smod sint r"
    by (simp add: sint_sbintrunc' signed_take_bit_int_eq_self)
  with eq have "sint (old_r - quotient * r) = sint old_r smod sint r"
    by simp
  with smod_int_range [OF nz, of "sint old_r"]
  have "\<bar>sint (old_r - quotient * r)\<bar> < \<bar>sint r\<bar>"
    by auto
  then show "((r, old_r - quotient * r, s, old_s - quotient * s, t, old_t - quotient * t),
              (old_r, r, old_s, s, old_t, t))
             \<in> measure (\<lambda>(old_r, r, old_s, s, old_t, t). nat \<bar>sint r\<bar>)"
    by simp
qed simp

declare inv_loop.simps [simp del]

definition symmetrix_galois_inv :: "galois_element \<Rightarrow> galois_element logged" where
  "symmetrix_galois_inv a =
     (if val a = 0
      then ([''symmetrix: Cannot invert zero in Galois field''],
            Inr \<lparr>val = 0, modulus = modulus a\<rparr>)
      else (case inv_loop (modulus a) (val a) 0 1 1 0 of
              Inl e \<Rightarrow> ([], Inl e)
            | Inr (old_r, old_s, old_t) \<Rightarrow>
                if 1 <s old_r
                then ([''symmetrix: Element not invertible in Galois field''],
                      Inr \<lparr>val = 0, modulus = modulus a\<rparr>)
                else ([], Inr \<lparr>val = (if old_s <s 0 then old_s + modulus a else old_s),
                                modulus = modulus a\<rparr>)))"

section \<open>CRT table and the field engine\<close>

text \<open>
  The table \<open>symmetrix_crt_primes\<close> and \<open>SYMMETRIX_NUM_CRT_PRIMES\<close>
  (\<open>sizeof table / sizeof entry\<close>, of type \<open>size_t\<close>) come from the header \<open>symmetrix.h\<close>.
\<close>

definition symmetrix_crt_primes :: "u64 list" where
  "symmetrix_crt_primes =
     [2147483647, 2147483629, 2147483587, 2147483579,
      2147483563, 2147483549, 2147483543, 2147483497]"

definition SYMMETRIX_NUM_CRT_PRIMES :: u64 where
  "SYMMETRIX_NUM_CRT_PRIMES = of_nat (length symmetrix_crt_primes)"

record galois_engine =
  prime :: u64
  crt_primes :: "u64 list"
  num_crt_primes :: "32 word"
  power_cache :: "galois_element list"
  cache_size :: "32 word"

text \<open>
  \<open>symmetrix_galois_init\<close>: the two \<open>kmalloc\<close> calls succeed or fail as the two flags say;
  on success the table is copied entry by entry and the cache is filled with zero elements.
\<close>

definition symmetrix_galois_init :: "bool \<Rightarrow> bool \<Rightarrow> u64 \<Rightarrow> error + galois_engine" where
  "symmetrix_galois_init crt_alloc_ok cache_alloc_ok p =
     (if \<not> crt_alloc_ok then Inl ENOMEM
      else if \<not> cache_alloc_ok then Inl ENOMEM
      else Inr \<lparr>prime = p,
                crt_primes = map (\<lambda>i. symmetrix_crt_primes ! i) [0..<unat SYMMETRIX_NUM_CRT_PRIMES],
                num_crt_primes = ucast SYMMETRIX_NUM_CRT_PRIMES,
                power_cache = replicate 1024 \<lparr>val = 0, modulus = p\<rparr>,
                cache_size = 1024\<rparr>)"

text \<open>
  \<open>symmetrix_crt_decompose\<close>: \<open>num_primes\<close> is an \<open>int\<close>; in the guard
  \<open>num_primes > SYMMETRIX_NUM_CRT_PRIMES\<close> it is converted to \<open>size_t\<close> (sign extension,
  \<open>scast\<close>) and compared unsigned. The loop writes \<open>residues[i]\<close> for ascending \<open>i\<close>.
  The caller's buffer is the list \<open>residues\<close>, which must hold at least \<open>num_primes\<close>
  slots; the function returns its status and the buffer.
\<close>

fun crt_decompose_loop :: "u64 list \<Rightarrow> u64 \<Rightarrow> nat list \<Rightarrow> u64 list \<Rightarrow> (error + unit) \<times> u64 list" where
  "crt_decompose_loop primes v [] residues = (Inr (), residues)"
| "crt_decompose_loop primes v (i # is) residues =
     (if primes ! i = 0 then (Inl DivideError, residues)
      else crt_decompose_loop primes v is (residues[i := v mod primes ! i]))"

definition symmetrix_crt_decompose ::
  "galois_engine \<Rightarrow> u64 \<Rightarrow> u64 list \<Rightarrow> 32 word \<Rightarrow> (error + unit) \<times> u64 list" where
  "symmetrix_crt_decompose eng v residues num_primes =
     (if SYMMETRIX_NUM_CRT_PRIMES < (scast num_primes :: u64) then (Inl EINVAL, residues)
      else crt_decompose_loop (crt_primes eng) v [0..<nat (sint num_primes)] residues)"

text \<open>
  \<open>symmetrix_crt_reconstruct\<close>: \<open>product\<close> and \<open>sum\<close> are \<open>u64\<close>, so the product of the
  primes wraps; only the \<open>term\<close> expression is evaluated at 128 bits (the cast binds to
  \<open>residues[i]\<close>, the operators associate to the left) and is then stored into a \<open>u64\<close>.
\<close>

fun crt_reconstruct_loop :: "u64 list \<Rightarrow> u64 list \<Rightarrow> u64 \<Rightarrow> nat list \<Rightarrow> u64 \<Rightarrow> error + u64" where
  "crt_reconstruct_loop primes residues product [] sum_acc = Inr sum_acc"
| "crt_reconstruct_loop primes residues product (i # is) sum_acc =
     (let p = primes ! i in
      if p = 0 then Inl DivideError
      else let m_i = product div p in
        case symmetrix_galois_pow (m_i mod p) (p - 2) p of
          Inl e \<Rightarrow> Inl e
        | Inr m_i_inv \<Rightarrow>
            if product = 0 then Inl DivideError
            else let term = (ucast ((((ucast (residues ! i) :: u128) * ucast m_i) mod ucast product
                                      * ucast m_i_inv) mod ucast product) :: u64)
                 in crt_reconstruct_loop primes residues product is ((sum_acc + term) mod product))"

definition symmetrix_crt_reconstruct :: "galois_engine \<Rightarrow> u64 list \<Rightarrow> 32 word \<Rightarrow> error + u64" where
  "symmetrix_crt_reconstruct eng residues num_primes =
     (if SYMMETRIX_NUM_CRT_PRIMES < (scast num_primes :: u64) then Inl EINVAL
      else let product = fold (\<lambda>i acc. acc * crt_primes eng ! i) [0..<nat (sint num_primes)] 1
           in crt_reconstruct_loop (crt_primes eng) residues product [0..<nat (sint num_primes)] 0)"

section \<open>Resource stalks, selector and sampler: \<open>kernel/symmetrix-core.c\<close>\<close>

text \<open>
  \<open>struct resource_stalk\<close> with its two vectors: \<open>resources[]\<close> (the capacities) and
  \<open>allocated[]\<close>. The header's enumeration of resource kinds ends in
  \<open>SYMMETRIX_RESOURCE_MAX\<close>; its value is the parameter \<open>rmax\<close> of the functions below,
  and the vectors are read at the indices below \<open>rmax\<close>.
\<close>

record resource_stalk =
  node_id :: u64
  resources :: "u64 list"
  allocated :: "u64 list"

record cohomology_state =
  dimension :: int
  computed_at :: u64
  valid :: bool

record symmetrix_system =
  cpu_stalks :: "resource_stalk list"
  h2_cohomology :: cohomology_state

text \<open>
  \<open>symmetrix_compute_h2_cohomology\<close>: the inner loop over the kinds compares and subtracts
  \<open>stalks[i].resources[k]\<close> and \<open>stalks[j].resources[k]\<close>; both accumulators are \<open>u64\<close>.
\<close>

definition resource_diff :: "nat \<Rightarrow> resource_stalk \<Rightarrow> resource_stalk \<Rightarrow> u64" where
  "resource_diff rmax si sj =
     fold (\<lambda>k d. if resources sj ! k < resources si ! k
                  then d + (resources si ! k - resources sj ! k)
                  else d + (resources sj ! k - resources si ! k)) [0..<rmax] 0"

definition obstruction_sum :: "nat \<Rightarrow> resource_stalk list \<Rightarrow> int \<Rightarrow> u64" where
  "obstruction_sum rmax stalks num_stalks =
     fold (\<lambda>i acc. fold (\<lambda>j acc'. acc' + resource_diff rmax (stalks ! i) (stalks ! j))
                         [Suc i..<nat num_stalks] acc)
          [0..<nat num_stalks] 0"

definition symmetrix_compute_h2_cohomology :: "nat \<Rightarrow> resource_stalk list \<Rightarrow> int \<Rightarrow> int" where
  "symmetrix_compute_h2_cohomology rmax stalks num_stalks =
     (if obstruction_sum rmax stalks num_stalks = 0 then 0 else 1)"

text \<open>
  \<open>cohomology_thread_fn\<close>: one pass of the loop body publishes the dimension computed over
  the first \<open>num_online_cpus()\<close> stalks, the time stamp and \<open>valid = true\<close>. The thread is
  the passes made until it is told to stop, one per entry of \<open>wakes\<close> (the number of online
  CPUs and the clock read in that pass).
\<close>

definition cohomology_thread_step :: "nat \<Rightarrow> symmetrix_system \<Rightarrow> int \<times> u64 \<Rightarrow> symmetrix_system" where
  "cohomology_thread_step rmax sys wake =
     (case wake of (num_online_cpus, jiffies) \<Rightarrow>
        let h2_dimension = symmetrix_compute_h2_cohomology rmax (cpu_stalks sys) num_online_cpus
        in sys\<lparr>h2_cohomology := \<lparr>dimension = h2_dimension, computed_at = jiffies, valid = True\<rparr>\<rparr>)"

definition cohomology_thread_fn :: "nat \<Rightarrow> symmetrix_system \<Rightarrow> (int \<times> u64) list \<Rightarrow> symmetrix_system" where
  "cohomology_thread_fn rmax sys wakes = fold (\<lambda>wake s. cohomology_thread_step rmax s wake) wakes sys"

text \<open>
  \<open>symmetrix_select_cpu\<close>: \<open>stalk_obstruction\<close> is the inner loop over the kinds, in \<open>u64\<close>
  arithmetic: the guard is \<open>allocated[i] > resources[i] * 80 / 100\<close> and the amount added
  is \<open>allocated[i] - resources[i]\<close>. The scan visits the online CPUs in ascending order
  and keeps the first strict minimum.
\<close>

definition stalk_obstruction :: "nat \<Rightarrow> resource_stalk \<Rightarrow> u64" where
  "stalk_obstruction rmax stalk =
     fold (\<lambda>i obstruction.
             if resources stalk ! i * 80 div 100 < allocated stalk ! i
             then obstruction + (allocated stalk ! i - resources stalk ! i)
             else obstruction) [0..<rmax] 0"

definition ULLONG_MAX :: u64 where
  "ULLONG_MAX = - 1"

definition select_cpu_scan :: "nat \<Rightarrow> symmetrix_system \<Rightarrow> nat list \<Rightarrow> int \<Rightarrow> int \<times> u64" where
  "select_cpu_scan rmax sys online prev_cpu =
     fold (\<lambda>cpu (best_cpu, min_obstruction).
             let obstruction = stalk_obstruction rmax (cpu_stalks sys ! cpu)
             in if obstruction < min_obstruction then (int cpu, obstruction)
                else (best_cpu, min_obstruction))
          online (prev_cpu, ULLONG_MAX)"

definition symmetrix_select_cpu :: "bool \<Rightarrow> nat \<Rightarrow> symmetrix_system \<Rightarrow> nat list \<Rightarrow> int \<Rightarrow> int" where
  "symmetrix_select_cpu enable_sheaf_scheduler rmax sys online prev_cpu =
     (if \<not> enable_sheaf_scheduler then prev_cpu
      else fst (select_cpu_scan rmax sys online prev_cpu))"

section \<open>Tensor-folding allocator\<close>

definition L1_CACHE_BYTES :: u64 where
  "L1_CACHE_BYTES = 64"

definition L2_CACHE_BYTES :: u64 where
  "L2_CACHE_BYTES = 256 * 1024"

definition symmetrix_morton_encode_2d :: "u32 \<Rightarrow> u32 \<Rightarrow> u64" where
  "symmetrix_morton_encode_2d x y =
     fold (\<lambda>i result. result OR (push_bit i (ucast (x AND push_bit i 1) :: u64)
                                  OR push_bit (i + 1) (ucast (y AND push_bit i 1) :: u64)))
          [0..<32] 0"

text \<open>\<open>struct tensor_block\<close>; the field \<open>size\<close> is \<open>bsize\<close> here.\<close>

record tensor_block =
  data :: u64
  bsize :: u64
  morton_index :: u32
  cache_level :: u8

text \<open>
  \<open>symmetrix_tensor_alloc\<close>: the outcomes of the two \<open>kmalloc\<close> calls (block descriptor,
  then payload) are the arguments \<open>block_alloc\<close> and \<open>data_alloc\<close>, \<open>None\<close> for \<open>NULL\<close>.
  The function returns the triple it logs with \<open>pr_debug\<close> (size, Morton index, cache
  level) and the pointer.
\<close>

definition symmetrix_tensor_alloc ::
  "bool \<Rightarrow> u64 option \<Rightarrow> u64 option \<Rightarrow> u64 \<Rightarrow> (u64 \<times> u32 \<times> u8) list \<times> u64 option" where
  "symmetrix_tensor_alloc enable_tensor_allocator block_alloc data_alloc sz =
     (if \<not> enable_tensor_allocator then ([], data_alloc)
      else case block_alloc of
             None \<Rightarrow> ([], None)
           | Some block_addr \<Rightarrow>
               (case data_alloc of
                  None \<Rightarrow> ([], None)
                | Some ptr \<Rightarrow>
                    let block = \<lparr>data = ptr, bsize = sz,
                                 morton_index = ucast (symmetrix_morton_encode_2d
                                                         (ucast (sz AND 0xFFFF))
                                                         (ucast (drop_bit 16 sz AND 0xFFFF))),
                                 cache_level = (if sz \<le> L1_CACHE_BYTES then 1
                                                else if sz \<le> L2_CACHE_BYTES then 2 else 3)\<rparr>
                    in ([(bsize block, morton_index block, cache_level block)], Some ptr)))"

section \<open>Reference quantities of the specification\<close>

text \<open>
  The selector's score as the specification words it: the sum over the kinds of
  \<open>max(0, allocated[k] - 0.8 * capacity[k])\<close>, on rational numbers.
\<close>

definition obstruction_spec :: "nat \<Rightarrow> resource_stalk \<Rightarrow> rat" where
  "obstruction_spec rmax stalk =
     sum_list (map (\<lambda>k. max 0 (of_nat (unat (allocated stalk ! k))
                               - (8 / 10) * of_nat (unat (resources stalk ! k)))) [0..<rmax])"

text \<open>
  The sampler's grand total as the specification words it: over every unordered pair of
  the first \<open>n\<close> stalks, the absolute per-kind differences of one of their vectors
  (\<open>vec\<close> selects \<open>allocated\<close> or \<open>resources\<close>), added up on natural numbers.
\<close>

definition absdiff :: "u64 \<Rightarrow> u64 \<Rightarrow> nat" where
  "absdiff x y = (if unat y < unat x then unat x - unat y else unat y - unat x)"

definition vector_diff :: "nat \<Rightarrow> u64 list \<Rightarrow> u64 list \<Rightarrow> nat" where
  "vector_diff rmax xs ys = sum_list (map (\<lambda>k. absdiff (xs ! k) (ys ! k)) [0..<rmax])"

definition pairwise_total :: "(resource_stalk \<Rightarrow> u64 list) \<Rightarrow> nat \<Rightarrow> resource_stalk list \<Rightarrow> nat \<Rightarrow> nat" where
  "pairwise_total vec rmax stalks n =
     sum_list (map (\<lambda>i. sum_list (map (\<lambda>j. vector_diff rmax (vec (stalks ! i)) (vec (stalks ! j)))
                                        [Suc i..<n]))
                   [0..<n])"

text \<open>Primality of a natural number, from first principles.\<close>

definition is_prime :: "nat \<Rightarrow> bool" where
  "is_prime p \<longleftrightarrow> 1 < p \<and> (\<forall>d. d dvd p \<longrightarrow> d = 1 \<or> d = p)"

section \<open>Facts about the machine arithmetic\<close>

lemma unat_u64_bound: "unat (a :: u64) < 2 ^ 64"
  using unsigned_less [of a, where ?'a = nat] by simp

lemma unat_ucast_u64_u128: "unat (ucast (a :: u64) :: u128) = unat a"
proof -
  have "unat a < 2 ^ 128"
    using unat_u64_bound [of a] by simp
  then show ?thesis
    by (simp add: unsigned_ucast_eq take_bit_nat_eq_self)
qed

lemma unat_ucast_u128_u64: "unat (ucast (a :: u128) :: u64) = unat a mod 2 ^ 64"
  by (simp add: unsigned_ucast_eq take_bit_eq_mod)

lemma unat_mulmod_u128:
  fixes a b m :: u64
  assumes "m \<noteq> 0"
  shows "unat (ucast (((ucast a :: u128) * ucast b) mod ucast m) :: u64) = (unat a * unat b) mod unat m"
proof -
  have "unat a * unat b < 2 ^ 64 * 2 ^ 64"
    using unat_u64_bound [of a] unat_u64_bound [of b] by (rule mult_strict_mono) simp_all
  then have "unat (ucast a :: u128) * unat (ucast b :: u128) < 2 ^ LENGTH(128)"
    by (simp add: unat_ucast_u64_u128)
  then have "unat ((ucast a :: u128) * ucast b) = unat (ucast a :: u128) * unat (ucast b :: u128)"
    by (rule unat_mult_lem [THEN iffD1])
  then have prod: "unat ((ucast a :: u128) * ucast b) = unat a * unat b"
    by (simp add: unat_ucast_u64_u128)
  have "0 < unat m"
    using assms by (simp add: unat_gt_0)
  then have "(unat a * unat b) mod unat m < unat m"
    by simp
  with unat_u64_bound [of m] have small: "(unat a * unat b) mod unat m < 2 ^ 64"
    by simp
  have "unat (((ucast a :: u128) * ucast b) mod ucast m) = (unat a * unat b) mod unat m"
    by (simp add: unat_mod prod unat_ucast_u64_u128)
  with small show ?thesis
    by (simp add: unat_ucast_u128_u64)
qed

lemma mulmod_u128_less:
  fixes a b m :: u64
  assumes "m \<noteq> 0"
  shows "(ucast (((ucast a :: u128) * ucast b) mod ucast m) :: u64) < m"
proof -
  have "0 < unat m"
    using assms by (simp add: unat_gt_0)
  then have "unat (ucast (((ucast a :: u128) * ucast b) mod ucast m) :: u64) < unat m"
    using assms by (simp add: unat_mulmod_u128)
  then show ?thesis
    by (simp add: word_less_nat_alt)
qed

text \<open>Once the exponent is positive, the last pass of the loop reduces the result.\<close>

lemma pow_loop_less:
  "m \<noteq> 0 \<Longrightarrow> 0 < expn \<Longrightarrow> pow_loop result b expn m < m"
proof (induction result b expn m rule: pow_loop.induct)
  case (1 result b expn m)
  let ?r = "if expn AND 1 \<noteq> 0 then ucast (((ucast result :: u128) * ucast b) mod ucast m) else result"
  let ?b = "ucast (((ucast b :: u128) * ucast b) mod ucast m) :: u64"
  have step: "pow_loop result b expn m = pow_loop ?r ?b (drop_bit 1 expn) m"
    using \<open>0 < expn\<close> by (subst pow_loop.simps) simp
  show ?case
  proof (cases "0 < drop_bit 1 expn")
    case True
    with 1 have "pow_loop ?r ?b (drop_bit 1 expn) m < m"
      by simp
    with step show ?thesis
      by simp
  next
    case False
    then have z: "drop_bit 1 expn = 0"
      by (simp add: word_greater_zero_iff)
    then have "unat expn div 2 = 0"
      using unat_div [of expn 2] by (simp add: drop_bit_eq_div)
    moreover have "0 < unat expn"
      using \<open>0 < expn\<close> by (simp add: word_less_nat_alt)
    ultimately have "unat expn = 1"
      by presburger
    then have e1: "expn = 1"
      using word_unat_eq_iff [of expn 1] by simp
    have "pow_loop result b expn m = ucast (((ucast result :: u128) * ucast b) mod ucast m)"
      unfolding step using z e1 by (simp add: pow_loop.simps [of _ _ 0])
    with mulmod_u128_less [OF \<open>m \<noteq> 0\<close>, of result b] show ?thesis
      by simp
  qed
qed


section \<open>Facts about the CRT table and the count guard\<close>

lemma length_crt_primes: "length symmetrix_crt_primes = 8"
  by (simp add: symmetrix_crt_primes_def)

lemma num_crt_primes_8: "SYMMETRIX_NUM_CRT_PRIMES = 8"
  by (simp add: SYMMETRIX_NUM_CRT_PRIMES_def length_crt_primes)

lemma crt_primes_init:
  "symmetrix_galois_init True True p = Inr eng \<Longrightarrow> crt_primes eng = symmetrix_crt_primes"
proof -
  assume "symmetrix_galois_init True True p = Inr eng"
  then have "crt_primes eng = map (\<lambda>i. symmetrix_crt_primes ! i) [0..<unat SYMMETRIX_NUM_CRT_PRIMES]"
    by (auto simp: symmetrix_galois_init_def)
  also have "unat SYMMETRIX_NUM_CRT_PRIMES = length symmetrix_crt_primes"
    by (simp add: num_crt_primes_8 length_crt_primes)
  finally show ?thesis
    by (simp add: map_nth)
qed

lemma crt_primes_nonzero: "i < 8 \<Longrightarrow> symmetrix_crt_primes ! i \<noteq> 0"
proof -
  assume "i < 8"
  then have "symmetrix_crt_primes ! i \<in> set symmetrix_crt_primes"
    using nth_mem [of i symmetrix_crt_primes] by (simp add: length_crt_primes)
  moreover have "\<forall>q \<in> set symmetrix_crt_primes. q \<noteq> 0"
    by (simp add: symmetrix_crt_primes_def)
  ultimately show ?thesis
    by blast
qed

lemma crt_table_copy:
  "map (\<lambda>i. symmetrix_crt_primes ! i) [0..<unat SYMMETRIX_NUM_CRT_PRIMES] = symmetrix_crt_primes"
proof -
  have "unat SYMMETRIX_NUM_CRT_PRIMES = length symmetrix_crt_primes"
    by (simp add: num_crt_primes_8 length_crt_primes)
  then show ?thesis
    by (simp add: map_nth)
qed

lemma galois_init_ok:
  "symmetrix_galois_init True True p
     = Inr \<lparr>prime = p, crt_primes = symmetrix_crt_primes, num_crt_primes = 8,
            power_cache = replicate 1024 \<lparr>val = 0, modulus = p\<rparr>, cache_size = 1024\<rparr>"
  by (simp add: symmetrix_galois_init_def crt_table_copy) (simp add: num_crt_primes_8)

lemma count_guard:
  fixes k :: "32 word"
  shows "(8 :: u64) < scast k \<longleftrightarrow> sint k < 0 \<or> 8 < sint k"
proof -
  have up: "sint (scast k :: u64) = sint k"
    by (simp add: sint_up_scast is_up)
  have rng: "- (2 ^ 31) \<le> sint k" "sint k < 2 ^ 31"
    using sint_range_size [of k] by (simp_all add: word_size)
  have u: "uint (scast k :: u64) = sint k mod 2 ^ 64"
    using uint_sint [of "scast k :: u64"] by (simp add: up take_bit_eq_mod)
  show ?thesis
  proof (cases "sint k < 0")
    case True
    have "(sint k + 2 ^ 64) mod 2 ^ 64 = sint k + 2 ^ 64"
      using rng True by (intro mod_pos_pos_trivial) simp_all
    then have "sint k mod 2 ^ 64 = sint k + 2 ^ 64"
      by simp
    with u have "uint (scast k :: u64) = sint k + 2 ^ 64"
      by simp
    with rng True show ?thesis
      by (simp add: word_less_alt)
  next
    case False
    have "sint k mod 2 ^ 64 = sint k"
      using rng False by (intro mod_pos_pos_trivial) simp_all
    with u have "uint (scast k :: u64) = sint k"
      by simp
    with False show ?thesis
      by (simp add: word_less_alt)
  qed
qed

lemma crt_decompose_loop_writes:
  "\<forall>i \<in> set is. primes ! i \<noteq> 0 \<Longrightarrow>
     \<exists>res'. crt_decompose_loop primes v is residues = (Inr (), res')
          \<and> length res' = length residues
          \<and> (\<forall>j. j \<notin> set is \<longrightarrow> res' ! j = residues ! j)
          \<and> (\<forall>i \<in> set is. i < length residues \<longrightarrow> res' ! i = v mod primes ! i)"
proof (induction "is" arbitrary: residues)
  case Nil
  then show ?case
    by simp
next
  case (Cons i "is")
  let ?r = "residues[i := v mod primes ! i]"
  from Cons.prems have nz: "primes ! i \<noteq> 0" and rest: "\<forall>i \<in> set is. primes ! i \<noteq> 0"
    by simp_all
  from Cons.IH [OF rest, of ?r] obtain res' where
    run: "crt_decompose_loop primes v is ?r = (Inr (), res')" and
    len: "length res' = length ?r" and
    keep: "\<forall>j. j \<notin> set is \<longrightarrow> res' ! j = ?r ! j" and
    wr: "\<forall>i \<in> set is. i < length ?r \<longrightarrow> res' ! i = v mod primes ! i"
    by blast
  have "crt_decompose_loop primes v (i # is) residues = (Inr (), res')"
    using nz run by simp
  moreover have "length res' = length residues"
    using len by simp
  moreover have "\<forall>j. j \<notin> set (i # is) \<longrightarrow> res' ! j = residues ! j"
    using keep by simp
  moreover have "\<forall>l \<in> set (i # is). l < length residues \<longrightarrow> res' ! l = v mod primes ! l"
  proof (intro ballI impI)
    fix l
    assume l: "l \<in> set (i # is)" and lt: "l < length residues"
    show "res' ! l = v mod primes ! l"
    proof (cases "l \<in> set is")
      case True
      with wr lt show ?thesis
        by simp
    next
      case False
      with l have "l = i"
        by simp
      with False keep lt show ?thesis
        by simp
    qed
  qed
  ultimately show ?case
    by blast
qed


section \<open>Facts about the pairwise totals\<close>

lemma fold_add_sum_list:
  fixes a :: u64
  shows "fold (\<lambda>x acc. acc + f x) xs a = a + sum_list (map f xs)"
  by (induction xs arbitrary: a) (simp_all add: add.assoc)

lemma of_nat_sum_list_map:
  "(of_nat (sum_list (map f xs)) :: u64) = sum_list (map (\<lambda>x. of_nat (f x)) xs)"
  by (induction xs) simp_all

lemma word_absdiff:
  fixes x y :: u64
  shows "(if y < x then x - y else y - x) = of_nat (absdiff x y)"
proof (cases "y < x")
  case True
  then have "y \<le> x"
    by simp
  then have "unat (x - y) = unat x - unat y"
    by (rule unat_sub)
  then have "x - y = of_nat (unat x - unat y)"
    by (metis of_nat_unat unsigned_word_eqI word_unat_eq_iff ucast_id)
  with True show ?thesis
    by (simp add: absdiff_def word_less_nat_alt)
next
  case False
  then have "x \<le> y"
    by simp
  then have "unat (y - x) = unat y - unat x"
    by (rule unat_sub)
  then have "y - x = of_nat (unat y - unat x)"
    by (metis of_nat_unat unsigned_word_eqI word_unat_eq_iff ucast_id)
  with False show ?thesis
    by (simp add: absdiff_def word_less_nat_alt)
qed

lemma resource_diff_of_nat:
  "resource_diff rmax si sj = of_nat (vector_diff rmax (resources si) (resources sj))"
proof -
  have "(\<lambda>k d. if resources sj ! k < resources si ! k
                  then d + (resources si ! k - resources sj ! k)
                  else d + (resources sj ! k - resources si ! k))
        = (\<lambda>k d. d + of_nat (absdiff (resources si ! k) (resources sj ! k)))"
    by (intro ext) (simp add: word_absdiff [symmetric])
  then show ?thesis
    by (simp add: resource_diff_def vector_diff_def fold_add_sum_list of_nat_sum_list_map)
qed

lemma obstruction_sum_of_nat:
  "obstruction_sum rmax stalks n = of_nat (pairwise_total resources rmax stalks (nat n))"
  by (simp add: obstruction_sum_def pairwise_total_def fold_add_sum_list of_nat_sum_list_map
      resource_diff_of_nat)

lemma of_nat_u64_eq_0_iff: "T < 2 ^ 64 \<Longrightarrow> (of_nat T :: u64) = 0 \<longleftrightarrow> T = 0"
proof -
  assume "T < 2 ^ 64"
  then have "unat (of_nat T :: u64) = T"
    by (simp add: unat_of_nat)
  then show ?thesis
    by (metis unat_eq_zero)
qed

lemma absdiff_eq_0_iff: "absdiff x y = 0 \<longleftrightarrow> x = y"
  by (auto simp: absdiff_def word_unat_eq_iff)

lemma vector_diff_eq_0_iff:
  "vector_diff rmax xs ys = 0 \<longleftrightarrow> (\<forall>k < rmax. xs ! k = ys ! k)"
  by (auto simp: vector_diff_def absdiff_eq_0_iff)

lemma pairwise_total_eq_0_iff:
  "pairwise_total vec rmax stalks n = 0 \<longleftrightarrow>
     (\<forall>i j k. i < j \<and> j < n \<and> k < rmax \<longrightarrow> vec (stalks ! i) ! k = vec (stalks ! j) ! k)"
proof
  assume z: "pairwise_total vec rmax stalks n = 0"
  show "\<forall>i j k. i < j \<and> j < n \<and> k < rmax \<longrightarrow> vec (stalks ! i) ! k = vec (stalks ! j) ! k"
  proof (intro allI impI)
    fix i j k
    assume h: "i < j \<and> j < n \<and> k < rmax"
    then have "i \<in> set [0..<n]" and "j \<in> set [Suc i..<n]"
      by simp_all
    with z have "vector_diff rmax (vec (stalks ! i)) (vec (stalks ! j)) = 0"
      by (simp add: pairwise_total_def)
    with h show "vec (stalks ! i) ! k = vec (stalks ! j) ! k"
      by (simp add: vector_diff_eq_0_iff)
  qed
next
  assume "\<forall>i j k. i < j \<and> j < n \<and> k < rmax \<longrightarrow> vec (stalks ! i) ! k = vec (stalks ! j) ! k"
  then have "\<forall>i j. i < j \<and> j < n \<longrightarrow> vector_diff rmax (vec (stalks ! i)) (vec (stalks ! j)) = 0"
    by (simp add: vector_diff_eq_0_iff)
  then show "pairwise_total vec rmax stalks n = 0"
    by (simp add: pairwise_total_def)
qed

lemma published_dimension:
  "dimension (h2_cohomology (cohomology_thread_step rmax sys (n, t)))
     = symmetrix_compute_h2_cohomology rmax (cpu_stalks sys) n"
  by (simp add: cohomology_thread_step_def)


section \<open>The extended Euclidean loop below \<open>2^63\<close>\<close>

text \<open>
  While the modulus is below \<open>2^63\<close> the signed locals hold the mathematical values:
  the remainders stay non-negative, the coefficients of the value alternate in sign and
  satisfy \<open>old_r * |s| + r * |old_s| = modulus\<close>, so they never leave the signed range.
  For a value coprime to such a modulus the loop ends with \<open>old_r = 1\<close> and a
  coefficient that is an inverse, and \<open>symmetrix_galois_inv\<close> returns it reduced.
\<close>

lemma sint_word_of_int_u64:
  "- (2 ^ 63) \<le> k \<Longrightarrow> k < 2 ^ 63 \<Longrightarrow> sint (word_of_int k :: u64) = k"
  by (simp add: sint_sbintrunc' signed_take_bit_int_eq_self)

lemma euclid_remainder_step:
  fixes old_r r :: u64
  assumes "0 < sint old_r" and "0 < sint r"
  shows "sint (old_r - sdiv64 old_r r * r) = sint old_r mod sint r"
proof -
  have q: "sint old_r sdiv sint r = sint old_r div sint r"
    using assms by (simp add: signed_divide_int_def sgn_if)
  have "old_r - sdiv64 old_r r * r = word_of_int (sint old_r - (sint old_r div sint r) * sint r)"
    by (simp add: sdiv64_def q)
  also have "sint old_r - (sint old_r div sint r) * sint r = sint old_r mod sint r"
    by (simp add: minus_div_mult_eq_mod)
  finally have eq: "old_r - sdiv64 old_r r * r = word_of_int (sint old_r mod sint r)" .
  have "sint r \<le> 2 ^ 63"
    using sint_range_size [of r] by (simp add: word_size)
  moreover have "0 \<le> sint old_r mod sint r" "sint old_r mod sint r < sint r"
    using assms by simp_all
  ultimately have "- (2 ^ 63) \<le> sint old_r mod sint r" "sint old_r mod sint r < 2 ^ 63"
    by linarith+
  then show ?thesis
    unfolding eq by (rule sint_word_of_int_u64)
qed

lemma euclid_coefficient_step:
  fixes old_r r old_s s :: u64
  assumes "0 < sint old_r" and "0 < sint r"
    and bound: "\<bar>sint old_s - (sint old_r div sint r) * sint s\<bar> < 2 ^ 63"
  shows "sint (old_s - sdiv64 old_r r * s) = sint old_s - (sint old_r div sint r) * sint s"
proof -
  have q: "sint old_r sdiv sint r = sint old_r div sint r"
    using assms by (simp add: signed_divide_int_def sgn_if)
  have eq: "old_s - sdiv64 old_r r * s = word_of_int (sint old_s - (sint old_r div sint r) * sint s)"
    by (simp add: sdiv64_def q)
  from bound have "- (2 ^ 63) \<le> sint old_s - (sint old_r div sint r) * sint s"
    "sint old_s - (sint old_r div sint r) * sint s < 2 ^ 63"
    by linarith+
  then show ?thesis
    unfolding eq by (rule sint_word_of_int_u64)
qed

lemma inv_loop_bezout:
  fixes M A :: int
  assumes "M < 2 ^ 63"
    and "0 < sint old_r" and "0 \<le> sint r"
    and "sint old_r * \<bar>sint s\<bar> + sint r * \<bar>sint old_s\<bar> = M"
    and "sint old_s * sint s \<le> 0"
    and "\<bar>sint old_s\<bar> \<le> M"
    and "gcd (sint old_r) (sint r) = 1"
    and "(sint old_s * A) mod M = sint old_r mod M"
    and "(sint s * A) mod M = sint r mod M"
  shows "\<exists>x y. inv_loop old_r r old_s s old_t t = Inr (1, x, y)
           \<and> \<bar>sint x\<bar> \<le> M \<and> (sint x * A) mod M = 1 mod M"
  using assms
proof (induction old_r r old_s s old_t t rule: inv_loop.induct)
  case (1 old_r r old_s s old_t t)
  note M = \<open>M < 2 ^ 63\<close>
  note opos = \<open>0 < sint old_r\<close>
  note I1 = \<open>sint old_r * \<bar>sint s\<bar> + sint r * \<bar>sint old_s\<bar> = M\<close>
  note I2 = \<open>sint old_s * sint s \<le> 0\<close>
  note I3 = \<open>\<bar>sint old_s\<bar> \<le> M\<close>
  note G = \<open>gcd (sint old_r) (sint r) = 1\<close>
  note C1 = \<open>(sint old_s * A) mod M = sint old_r mod M\<close>
  note C2 = \<open>(sint s * A) mod M = sint r mod M\<close>
  show ?case
  proof (cases "r = 0")
    case True
    with G opos have "sint old_r = 1"
      by simp
    then have "sint old_r = sint (1 :: u64)"
      by simp
    then have one: "old_r = 1"
      by (simp only: word_eq_iff_signed [symmetric])
    have "inv_loop old_r r old_s s old_t t = Inr (old_r, old_s, old_t)"
      using True by (simp add: inv_loop.simps)
    moreover have "(sint old_s * A) mod M = 1 mod M"
      using C1 \<open>sint old_r = 1\<close> by simp
    ultimately show ?thesis
      using one I3 by simp
  next
    case False
    then have "sint r \<noteq> 0"
      by (simp add: signed_eq_0_iff)
    with \<open>0 \<le> sint r\<close> have rpos: "0 < sint r"
      by simp
    let ?Q = "sint old_r div sint r"
    let ?q = "sdiv64 old_r r"
    let ?r' = "old_r - ?q * r"
    let ?s' = "old_s - ?q * s"
    let ?t' = "old_t - ?q * t"
    let ?S = "sint old_s - ?Q * sint s"
    have "sint r \<noteq> - 1"
      using rpos by simp
    then have rn: "r \<noteq> - 1"
      by auto
    then have notrap: "\<not> (old_r = - (2 ^ 63) \<and> r = - 1)"
      by simp
    have step: "inv_loop old_r r old_s s old_t t = inv_loop r ?r' s ?s' t ?t'"
      using False rn by (subst inv_loop.simps) (simp add: Let_def)
    have R: "sint ?r' = sint old_r mod sint r"
      using opos rpos by (rule euclid_remainder_step)
    have Rdiff: "sint old_r mod sint r = sint old_r - ?Q * sint r"
      by (simp add: minus_div_mult_eq_mod)
    have Rnn: "0 \<le> sint ?r'"
      using rpos by (simp add: R)
    have Qnn: "0 \<le> ?Q"
      using opos rpos by (simp add: pos_imp_zdiv_nonneg_iff)
    have absS: "\<bar>?S\<bar> = \<bar>sint old_s\<bar> + ?Q * \<bar>sint s\<bar>"
    proof (cases "0 \<le> sint s")
      case True
      show ?thesis
      proof (cases "sint s = 0")
        case True
        then show ?thesis
          by simp
      next
        case False
        with \<open>0 \<le> sint s\<close> have "0 < sint s"
          by simp
        with I2 have "sint old_s \<le> 0"
          by (simp add: mult_le_0_iff)
        moreover have "0 \<le> ?Q * sint s"
          using Qnn \<open>0 \<le> sint s\<close> by simp
        ultimately show ?thesis
          using \<open>0 \<le> sint s\<close> by simp
      qed
    next
      case False
      then have neg: "sint s < 0"
        by simp
      with I2 have "0 \<le> sint old_s"
        by (simp add: mult_le_0_iff)
      moreover have "?Q * sint s \<le> 0"
        using Qnn neg by (simp add: mult_le_0_iff)
      moreover have "?Q * \<bar>sint s\<bar> = - (?Q * sint s)"
        using neg by simp
      ultimately show ?thesis
        by linarith
    qed
    have I1': "sint r * \<bar>?S\<bar> + sint ?r' * \<bar>sint s\<bar> = M"
    proof -
      have "sint r * \<bar>?S\<bar> + sint ?r' * \<bar>sint s\<bar>
            = sint r * (\<bar>sint old_s\<bar> + ?Q * \<bar>sint s\<bar>) + (sint old_r - ?Q * sint r) * \<bar>sint s\<bar>"
        by (simp only: absS R Rdiff)
      also have "\<dots> = sint old_r * \<bar>sint s\<bar> + sint r * \<bar>sint old_s\<bar>"
        by (simp add: algebra_simps)
      finally show ?thesis
        using I1 by simp
    qed
    have "0 \<le> sint ?r' * \<bar>sint s\<bar>"
      using Rnn by simp
    with I1' have "sint r * \<bar>?S\<bar> \<le> M"
      by linarith
    moreover have "\<bar>?S\<bar> \<le> sint r * \<bar>?S\<bar>"
      using rpos by (simp add: mult_le_cancel_right1)
    ultimately have Sle: "\<bar>?S\<bar> \<le> M"
      by linarith
    with M have "\<bar>?S\<bar> < 2 ^ 63"
      by linarith
    with opos rpos have S: "sint ?s' = ?S"
      by (rule euclid_coefficient_step)
    have "0 \<le> sint r * \<bar>sint old_s\<bar>"
      using rpos by simp
    with I1 have "sint old_r * \<bar>sint s\<bar> \<le> M"
      by linarith
    moreover have "\<bar>sint s\<bar> \<le> sint old_r * \<bar>sint s\<bar>"
      using opos by (simp add: mult_le_cancel_right1)
    ultimately have I3': "\<bar>sint s\<bar> \<le> M"
      by linarith
    have I2': "sint s * sint ?s' \<le> 0"
    proof -
      have "sint s * ?S = sint old_s * sint s - ?Q * (sint s * sint s)"
        by (simp add: algebra_simps)
      moreover have "0 \<le> ?Q * (sint s * sint s)"
        using Qnn by simp
      ultimately show ?thesis
        using I2 by (simp add: S)
    qed
    have G': "gcd (sint r) (sint ?r') = 1"
      using G by (simp add: R gcd_red_int [symmetric])
    have C2': "(sint ?s' * A) mod M = sint ?r' mod M"
    proof -
      have "(?S * A) mod M = (sint old_s * A - ?Q * (sint s * A)) mod M"
        by (simp add: algebra_simps)
      also have "\<dots> = ((sint old_s * A) mod M - (?Q * ((sint s * A) mod M)) mod M) mod M"
        by (simp add: mod_diff_eq mod_mult_right_eq)
      also have "\<dots> = (sint old_r mod M - (?Q * (sint r mod M)) mod M) mod M"
        by (simp only: C1 C2)
      also have "\<dots> = (sint old_r - ?Q * sint r) mod M"
        by (simp add: mod_diff_eq mod_mult_right_eq)
      finally show ?thesis
        by (simp add: S R Rdiff)
    qed
    from "1.IH" [OF False notrap refl M rpos Rnn _ I2' I3' G' C2 C2'] I1' S
    have "\<exists>x y. inv_loop r ?r' s ?s' t ?t' = Inr (1, x, y)
           \<and> \<bar>sint x\<bar> \<le> M \<and> (sint x * A) mod M = 1 mod M"
      by simp
    with step show ?thesis
      by simp
  qed
qed

lemma sint_eq_uint_below_int64:
  "uint (w :: u64) < 2 ^ 63 \<Longrightarrow> sint w = uint w"
proof -
  assume "uint w < 2 ^ 63"
  moreover have "- (2 ^ 63) \<le> (0 :: int)"
    by simp
  then have "- (2 ^ 63) \<le> uint w"
    using uint_ge_0 [of w] by (rule order_trans)
  ultimately have "signed_take_bit 63 (uint w) = uint w"
    by (simp add: signed_take_bit_int_eq_self)
  then show ?thesis
    by (simp add: sint_uint)
qed

lemma inverse_start:
  assumes m: "uint (modulus a) < 2 ^ 63"
    and a0: "0 < uint (val a)" and am: "uint (val a) < uint (modulus a)"
    and g: "gcd (uint (modulus a)) (uint (val a)) = 1"
  shows "\<exists>x y. inv_loop (modulus a) (val a) 0 1 1 0 = Inr (1, x, y)
           \<and> \<bar>sint x\<bar> \<le> uint (modulus a)
           \<and> (sint x * uint (val a)) mod uint (modulus a) = 1 mod uint (modulus a)"
proof -
  have sm: "sint (modulus a) = uint (modulus a)"
    using m by (rule sint_eq_uint_below_int64)
  have "uint (val a) < 2 ^ 63"
    using am m by linarith
  then have sa: "sint (val a) = uint (val a)"
    by (rule sint_eq_uint_below_int64)
  show ?thesis
  proof (rule inv_loop_bezout [OF m])
    show "0 < sint (modulus a)"
      using a0 am by (simp add: sm)
    show "0 \<le> sint (val a)"
      using a0 by (simp add: sa)
    show "sint (modulus a) * \<bar>sint (1 :: u64)\<bar> + sint (val a) * \<bar>sint (0 :: u64)\<bar> = uint (modulus a)"
      by (simp add: sm)
    show "sint (0 :: u64) * sint (1 :: u64) \<le> 0"
      by simp
    show "\<bar>sint (0 :: u64)\<bar> \<le> uint (modulus a)"
      by simp
    show "gcd (sint (modulus a)) (sint (val a)) = 1"
      using g by (simp add: sm sa)
    show "sint (0 :: u64) * uint (val a) mod uint (modulus a) = sint (modulus a) mod uint (modulus a)"
      by (simp add: sm)
    show "sint (1 :: u64) * uint (val a) mod uint (modulus a) = sint (val a) mod uint (modulus a)"
      by (simp add: sa)
  qed
qed

lemma inverse_normalise:
  fixes x m :: u64
  assumes M63: "uint m < 2 ^ 63" and xr: "- uint m < sint x" "sint x < uint m"
  shows "uint (if x <s 0 then x + m else x) = sint x mod uint m"
proof (cases "sint x < 0")
  case True
  then have neg: "x <s 0"
    by (simp add: word_sless_alt)
  have "x + m = word_of_int (sint x) + word_of_int (uint m)"
    by simp
  also have "\<dots> = word_of_int (sint x + uint m)"
    by simp
  finally have "uint (x + m) = (sint x + uint m) mod 2 ^ 64"
    by (simp only: uint_word_of_int) simp
  moreover have "0 \<le> sint x + uint m"
    using xr by linarith
  moreover have "sint x + uint m < 2 ^ 64"
    using True M63 by simp
  ultimately have "uint (x + m) = sint x + uint m"
    by simp
  moreover have "(sint x + uint m) mod uint m = sint x + uint m"
    using xr True by (intro mod_pos_pos_trivial) linarith+
  then have "sint x mod uint m = sint x + uint m"
    by simp
  ultimately show ?thesis
    using neg by simp
next
  case False
  then have nl: "\<not> x <s 0"
    by (simp add: word_sless_alt)
  have "uint x = sint x mod 2 ^ 64"
    using uint_sint [of x] by (simp add: take_bit_eq_mod)
  moreover have "0 \<le> sint x"
    using False by simp
  moreover have "sint x < 2 ^ 64"
    using xr M63 by simp
  ultimately have "uint x = sint x"
    by simp
  moreover have "sint x mod uint m = sint x"
    using False xr by simp
  ultimately show ?thesis
    using nl by simp
qed

lemma galois_inv_below_int64:
  assumes m: "unat (modulus a) < 2 ^ 63"
    and a0: "0 < val a" and am: "val a < modulus a"
    and cop: "coprime (unat (val a)) (unat (modulus a))"
  shows "\<exists>i r. symmetrix_galois_inv a = ([], Inr i) \<and> modulus i = modulus a \<and> val i < modulus a
           \<and> symmetrix_galois_mul a i = ([], Inr r) \<and> val r = 1"
proof -
  let ?M = "uint (modulus a)"
  let ?A = "uint (val a)"
  have Apos: "0 < ?A"
    using a0 by (simp add: word_less_alt)
  have AM: "?A < ?M"
    using am by (simp add: word_less_alt)
  have "int (unat (modulus a)) < 2 ^ 63"
    using m by (simp only: of_nat_less_numeral_power_cancel_iff)
  then have M63: "?M < 2 ^ 63"
    by simp
  have "gcd (int (unat (modulus a))) (int (unat (val a))) = 1"
    using cop by (simp only: gcd_int_int_eq) (simp add: gcd.commute coprime_iff_gcd_eq_1)
  then have g: "gcd ?M ?A = 1"
    by simp
  from inverse_start [OF M63 Apos AM g] obtain x y where
    loop: "inv_loop (modulus a) (val a) 0 1 1 0 = Inr (1, x, y)" and
    xb: "\<bar>sint x\<bar> \<le> ?M" and
    xc: "(sint x * ?A) mod ?M = 1 mod ?M"
    by blast
  have M1: "1 < ?M"
    using Apos AM by linarith
  then have xc1: "(sint x * ?A) mod ?M = 1"
    using xc by simp
  let ?v = "if x <s 0 then x + modulus a else x"
  have run: "symmetrix_galois_inv a = ([], Inr \<lparr>val = ?v, modulus = modulus a\<rparr>)"
    using a0 loop by (simp add: symmetrix_galois_inv_def word_sless_alt)
  have "sint x \<noteq> ?M"
  proof
    assume "sint x = ?M"
    then have "(sint x * ?A) mod ?M = 0"
      by simp
    with xc1 show False
      by simp
  qed
  moreover have "sint x \<noteq> - ?M"
  proof
    assume "sint x = - ?M"
    then have "(sint x * ?A) mod ?M = 0"
      by simp
    with xc1 show False
      by simp
  qed
  ultimately have xr: "- ?M < sint x" "sint x < ?M"
    using xb by linarith+
  have v: "uint ?v = sint x mod ?M"
    using M63 xr by (rule inverse_normalise)
  have "uint ?v < ?M"
    using M1 by (simp only: v) simp
  then have lt: "?v < modulus a"
    by (simp only: word_less_alt)
  have "(?A * uint ?v) mod ?M = (sint x * ?A) mod ?M"
    by (simp only: v mod_mult_right_eq) (simp add: mult.commute)
  with xc1 have "(?A * uint ?v) mod ?M = 1"
    by simp
  then have "int ((unat (val a) * unat ?v) mod unat (modulus a)) = 1"
    by (simp only: zmod_int of_nat_mult uint_nat [symmetric])
  then have prod1: "(unat (val a) * unat ?v) mod unat (modulus a) = 1"
    by linarith
  have mnz: "modulus a \<noteq> 0"
    using am by auto
  let ?p = "ucast (((ucast (val a) :: u128) * ucast ?v) mod ucast (modulus a)) :: u64"
  have "unat ?p = (unat (val a) * unat ?v) mod unat (modulus a)"
    using mnz by (rule unat_mulmod_u128)
  with prod1 have "unat ?p = unat (1 :: u64)"
    by simp
  then have p1: "?p = 1"
    by (simp only: word_unat_eq_iff)
  have mul: "symmetrix_galois_mul a \<lparr>val = ?v, modulus = modulus a\<rparr>
               = ([], Inr \<lparr>val = ?p, modulus = modulus a\<rparr>)"
    using mnz by (simp add: symmetrix_galois_mul_def)
  have "modulus \<lparr>val = ?v, modulus = modulus a\<rparr> = modulus a"
    and "val \<lparr>val = ?v, modulus = modulus a\<rparr> < modulus a"
    and "val \<lparr>val = ?p, modulus = modulus a\<rparr> = 1"
    using lt p1 by simp_all
  with run mul show ?thesis
    by blast
qed


section \<open>Exponentiation computes the power\<close>

text \<open>
  The square-and-multiply loop keeps \<open>result * b ^ exp\<close> unchanged modulo \<open>m\<close>, so for
  a positive exponent \<open>symmetrix_galois_pow\<close> returns \<open>base ^ exp mod m\<close>.
\<close>

lemma and_one_odd: "(e :: u64) AND 1 \<noteq> 0 \<longleftrightarrow> odd (unat e)"
proof -
  have "unat (e AND 1) = unat e mod 2"
    by (simp add: and_one_eq unat_mod)
  moreover have "e AND 1 \<noteq> 0 \<longleftrightarrow> unat (e AND 1) \<noteq> 0"
    by (simp add: unat_eq_zero)
  ultimately show ?thesis
    by (simp add: odd_iff_mod_2_eq_one)
qed

lemma pow_loop_power:
  "m \<noteq> 0 \<Longrightarrow>
     unat (pow_loop result b expn m) mod unat m = (unat result * unat b ^ unat expn) mod unat m"
proof (induction result b expn m rule: pow_loop.induct)
  case (1 result b expn m)
  let ?M = "unat m"
  let ?R = "unat result"
  let ?B = "unat b"
  let ?E = "unat expn"
  show ?case
  proof (cases "0 < expn")
    case False
    then have "expn = 0"
      by (simp add: word_greater_zero_iff)
    then show ?thesis
      by (simp add: pow_loop.simps [of _ _ 0])
  next
    case True
    let ?r = "if expn AND 1 \<noteq> 0 then ucast (((ucast result :: u128) * ucast b) mod ucast m) else result"
    let ?b = "ucast (((ucast b :: u128) * ucast b) mod ucast m) :: u64"
    have step: "pow_loop result b expn m = pow_loop ?r ?b (drop_bit 1 expn) m"
      using True by (subst pow_loop.simps) simp
    have e': "unat (drop_bit 1 expn) = ?E div 2"
      by (simp add: drop_bit_eq_div unat_div)
    have b': "unat ?b = (?B * ?B) mod ?M"
      using \<open>m \<noteq> 0\<close> by (rule unat_mulmod_u128)
    have "unat (pow_loop ?r ?b (drop_bit 1 expn) m) mod ?M
            = (unat ?r * unat ?b ^ unat (drop_bit 1 expn)) mod ?M"
      using "1.IH" [OF True \<open>m \<noteq> 0\<close>] .
    also have "\<dots> = (unat ?r * (((?B * ?B) mod ?M) ^ (?E div 2) mod ?M)) mod ?M"
      by (simp only: e' b' mod_mult_right_eq)
    also have "\<dots> = (unat ?r * ((?B * ?B) ^ (?E div 2))) mod ?M"
      by (simp only: power_mod mod_mult_right_eq)
    also have "\<dots> = (unat ?r * ?B ^ (2 * (?E div 2))) mod ?M"
      by (simp add: power_mult power2_eq_square)
    also have "\<dots> = (?R * ?B ^ ?E) mod ?M"
    proof (cases "odd ?E")
      case True
      then have r: "unat ?r = (?R * ?B) mod ?M"
        using \<open>m \<noteq> 0\<close> by (simp add: and_one_odd unat_mulmod_u128)
      from True have E: "?E = Suc (2 * (?E div 2))"
        by presburger
      have "(unat ?r * ?B ^ (2 * (?E div 2))) mod ?M = ((?R * ?B) * ?B ^ (2 * (?E div 2))) mod ?M"
        by (simp only: r mod_mult_left_eq)
      also have "\<dots> = (?R * ?B ^ Suc (2 * (?E div 2))) mod ?M"
        by (simp add: mult.assoc)
      finally show ?thesis
        using E by simp
    next
      case False
      then have r: "?r = result"
        by (simp add: and_one_odd)
      from False have "?E = 2 * (?E div 2)"
        by presburger
      with r show ?thesis
        by simp
    qed
    finally show ?thesis
      by (simp only: step)
  qed
qed

lemma galois_pow_power:
  assumes "m \<noteq> 0" and "0 < expn"
  shows "\<exists>r. symmetrix_galois_pow base expn m = Inr r \<and> r < m
           \<and> unat r = unat base ^ unat expn mod unat m"
proof -
  let ?r = "pow_loop 1 (base mod m) expn m"
  have run: "symmetrix_galois_pow base expn m = Inr ?r"
    using assms(1) by (simp add: symmetrix_galois_pow_def)
  have lt: "?r < m"
    using assms by (rule pow_loop_less)
  then have "unat ?r < unat m"
    by (simp only: word_less_nat_alt)
  then have "unat ?r = unat ?r mod unat m"
    by simp
  also have "\<dots> = (unat (1 :: u64) * unat (base mod m) ^ unat expn) mod unat m"
    using assms(1) by (rule pow_loop_power)
  also have "\<dots> = ((unat base mod unat m) ^ unat expn) mod unat m"
    by (simp add: unat_mod)
  also have "\<dots> = unat base ^ unat expn mod unat m"
    by (simp only: power_mod)
  finally have "unat ?r = unat base ^ unat expn mod unat m" .
  with run lt show ?thesis
    by blast
qed

section \<open>A prime modulus above \<open>2^63\<close>\<close>

text \<open>
  \<open>27 * 2^59 + 1 = 15564440312192434177\<close> is prime. The certificate is Proth's: with
  \<open>m = k * 2^n + 1\<close>, \<open>k < 2^n\<close> and \<open>a ^ ((m - 1) / 2) = -1\<close> modulo \<open>m\<close>, every divisor
  \<open>q > 1\<close> of \<open>m\<close> has \<open>2^n\<close> distinct nonzero residues \<open>(a^k)^i mod q\<close>, hence
  \<open>q > 2^n\<close>, and two such divisors would multiply to more than \<open>m\<close>. The power is
  evaluated by \<open>symmetrix_galois_pow\<close> itself, with \<open>a = 5\<close>.
\<close>

lemma dvd_power2_smaller:
  fixes d :: nat
  shows "d dvd 2 ^ n \<Longrightarrow> d < 2 ^ n \<Longrightarrow> d dvd 2 ^ (n - 1)"
proof (induction n arbitrary: d)
  case 0
  then show ?case
    by simp
next
  case (Suc n)
  show ?case
  proof (cases "even d")
    case True
    then obtain h where h: "d = 2 * h"
      by (auto elim: evenE)
    with Suc.prems have hd: "h dvd 2 ^ n" and hl: "h < 2 ^ n"
      by simp_all
    from Suc.IH [OF hd hl] have "h dvd 2 ^ (n - 1)" .
    moreover have "0 < n"
    proof (rule ccontr)
      assume "\<not> 0 < n"
      with hl have "h = 0"
        by simp
      with hd show False
        by simp
    qed
    ultimately have "2 * h dvd 2 * 2 ^ (n - 1)" and "2 * 2 ^ (n - 1) = (2 :: nat) ^ n"
      by (simp_all add: power_eq_if)
    then have "2 * h dvd (2 :: nat) ^ n"
      by (simp only:)
    then show ?thesis
      using h by simp
  next
    case False
    then have "coprime d 2"
      by (simp add: coprime_right_2_iff_odd)
    moreover from Suc.prems have "d dvd 2 * 2 ^ n"
      by simp
    ultimately have "d dvd 2 ^ n"
      by (simp add: coprime_dvd_mult_right_iff)
    then show ?thesis
      by simp
  qed
qed

lemma composite_small_divisor:
  assumes "1 < m" and "\<not> is_prime m"
  shows "\<exists>q. 1 < q \<and> q dvd m \<and> q * q \<le> m"
proof -
  from assms obtain d where d: "d dvd m" "d \<noteq> 1" "d \<noteq> m"
    by (auto simp: is_prime_def)
  then obtain e where e: "m = d * e"
    by (auto elim: dvdE)
  with assms(1) have "d \<noteq> 0" and "e \<noteq> 0"
    by (auto intro: ccontr)
  with d e have d1: "1 < d" and e1: "1 < e"
    by (cases d; cases e; auto)+
  show ?thesis
  proof (cases "d \<le> e")
    case True
    then have "d * d \<le> d * e"
      by simp
    with d1 d(1) e show ?thesis
      by auto
  next
    case False
    then have "e * e \<le> d * e"
      by simp
    moreover have "e dvd m"
      using e by simp
    ultimately show ?thesis
      using e1 e by auto
  qed
qed

lemma power_minus_one_square:
  fixes b q :: nat
  assumes q: "2 < q" and half: "b ^ (2 ^ (n - 1)) mod q = q - 1" and n: "0 < n"
  shows "b ^ (2 ^ n) mod q = 1"
proof -
  have "(2 :: nat) ^ n = 2 ^ (n - 1) * 2"
    using n by (simp add: power_eq_if)
  then have "b ^ (2 ^ n) = (b ^ (2 ^ (n - 1))) ^ 2"
    by (simp only: power_mult)
  then have "b ^ (2 ^ n) mod q = ((b ^ (2 ^ (n - 1)) mod q) ^ 2) mod q"
    by (simp only: power_mod)
  also have "\<dots> = ((q - 1) * (q - 1)) mod q"
    by (simp only: half power2_eq_square)
  also have "\<dots> = 1"
  proof -
    from q obtain c where c: "q = c + 2"
      using less_imp_add_positive [of 2 q] by (auto simp: add.commute)
    have "(q - 1) * (q - 1) = q * c + 1"
      by (simp add: c algebra_simps)
    moreover have "(q * c + 1) mod q = 1 mod q"
      by (rule mod_mult_self4)
    moreover have "1 mod q = 1"
      using q by simp
    ultimately show ?thesis
      by simp
  qed
  finally show ?thesis .
qed

lemma power_not_one_below:
  fixes b q :: nat
  assumes q: "2 < q" and half: "b ^ (2 ^ (n - 1)) mod q = q - 1" and n: "0 < n"
    and d: "0 < d" "d < 2 ^ n"
  shows "b ^ d mod q \<noteq> 1"
proof
  assume one: "b ^ d mod q = 1"
  have full: "b ^ (2 ^ n) mod q = 1"
    using q half n by (rule power_minus_one_square)
  let ?g = "gcd d (2 ^ n)"
  from d(1) have "d \<noteq> 0"
    by simp
  from bezout_nat [OF this, of "2 ^ n"] obtain x y where xy: "d * x = 2 ^ n * y + ?g"
    by blast
  have "b ^ (d * x) mod q = ((b ^ d mod q) ^ x) mod q"
    by (simp only: power_mult power_mod)
  also have "\<dots> = 1"
    using q by (simp add: one)
  finally have lhs: "b ^ (d * x) mod q = 1" .
  have "b ^ (2 ^ n * y + ?g) mod q = (((b ^ (2 ^ n) mod q) ^ y mod q) * (b ^ ?g mod q)) mod q"
    by (simp only: power_add power_mult power_mod mod_mult_eq)
  also have "\<dots> = b ^ ?g mod q"
    using q by (simp add: full)
  finally have "b ^ ?g mod q = 1"
    using lhs by (simp only: xy)
  moreover have "?g dvd 2 ^ (n - 1)"
  proof (rule dvd_power2_smaller)
    show "?g dvd 2 ^ n"
      by simp
    have "?g \<le> d"
      using d(1) by (intro gcd_le1_nat) simp
    with d(2) show "?g < 2 ^ n"
      by simp
  qed
  then obtain c where c: "2 ^ (n - 1) = ?g * c"
    by (auto elim: dvdE)
  ultimately have "b ^ (2 ^ (n - 1)) mod q = 1"
  proof -
    assume g1: "b ^ ?g mod q = 1"
    have "b ^ (2 ^ (n - 1)) mod q = ((b ^ ?g mod q) ^ c) mod q"
      by (simp only: c power_mult power_mod)
    also have "\<dots> = 1"
      using q by (simp add: g1)
    finally show ?thesis .
  qed
  with half have "q - 1 = 1"
    by simp
  with q show False
    by simp
qed

lemma many_residues:
  fixes b q :: nat
  assumes q: "2 < q" and half: "b ^ (2 ^ (n - 1)) mod q = q - 1" and n: "0 < n"
  shows "2 ^ n < q"
proof -
  let ?N = "(2 :: nat) ^ n"
  let ?f = "\<lambda>i. b ^ i mod q"
  have full: "b ^ ?N mod q = 1"
    using q half n by (rule power_minus_one_square)
  have cancel: "b ^ j mod q = 1" if "?f i = ?f (i + j)" and "i < ?N" for i j
  proof -
    have "b ^ (?N - i + i) mod q = 1"
      using full that(2) by simp
    then have a: "(b ^ (?N - i) * b ^ i) mod q = 1"
      by (simp only: power_add)
    have "(b ^ (?N - i) * b ^ (i + j)) mod q = (b ^ (?N - i) * (b ^ (i + j) mod q)) mod q"
      by (simp only: mod_mult_right_eq)
    also have "\<dots> = (b ^ (?N - i) * (b ^ i mod q)) mod q"
      using that(1) by simp
    also have "\<dots> = 1"
      using a by (simp only: mod_mult_right_eq)
    finally have "(b ^ (?N - i) * b ^ (i + j)) mod q = 1" .
    moreover have "b ^ (?N - i) * b ^ (i + j) = (b ^ (?N - i) * b ^ i) * b ^ j"
      by (simp add: power_add mult.assoc)
    ultimately have "((b ^ (?N - i) * b ^ i) mod q * (b ^ j mod q)) mod q = 1"
      by (simp only: mod_mult_eq)
    then show ?thesis
      by (simp only: a) simp
  qed
  have inj: "inj_on ?f {0..<?N}"
  proof (rule inj_onI)
    fix i j
    assume i: "i \<in> {0..<?N}" and j: "j \<in> {0..<?N}" and eq: "?f i = ?f j"
    show "i = j"
    proof (rule ccontr)
      assume ne: "i \<noteq> j"
      show False
      proof (cases "i < j")
        case True
        then have "?f i = ?f (i + (j - i))"
          using eq by simp
        then have "b ^ (j - i) mod q = 1"
          using i by (intro cancel) simp_all
        moreover have "b ^ (j - i) mod q \<noteq> 1"
          using q half n by (rule power_not_one_below) (use True j in simp_all)
        ultimately show False
          by simp
      next
        case False
        with ne have lt: "j < i"
          by simp
        then have "?f j = ?f (j + (i - j))"
          using eq by simp
        then have "b ^ (i - j) mod q = 1"
          using j by (intro cancel) simp_all
        moreover have "b ^ (i - j) mod q \<noteq> 1"
          using q half n by (rule power_not_one_below) (use lt i in simp_all)
        ultimately show False
          by simp
      qed
    qed
  qed
  have img: "?f ` {0..<?N} \<subseteq> {1..<q}"
  proof
    fix r
    assume "r \<in> ?f ` {0..<?N}"
    then obtain i where i: "i < ?N" and r: "r = b ^ i mod q"
      by auto
    have "r < q"
      using q by (simp add: r)
    moreover have "r \<noteq> 0"
    proof
      assume "r = 0"
      then have z: "b ^ i mod q = 0"
        by (simp add: r)
      have "b ^ (i + (?N - i)) mod q = 1"
        using full i by simp
      then have "((b ^ i mod q) * b ^ (?N - i)) mod q = 1"
        by (simp only: power_add mod_mult_left_eq)
      then show False
        by (simp add: z)
    qed
    ultimately show "r \<in> {1..<q}"
      by simp
  qed
  have "card {0..<?N} \<le> card {1..<q}"
    using inj img by (rule card_inj_on_le) simp
  then have "?N \<le> q - 1"
    by simp
  with q show ?thesis
    by simp
qed

lemma proth_divisor_large:
  fixes a k n m q :: nat
  assumes n: "0 < n" and m: "m = k * 2 ^ n + 1"
    and a: "a ^ (k * 2 ^ (n - 1)) mod m = m - 1"
    and q: "q dvd m" "1 < q"
  shows "2 ^ n < q"
proof -
  have pw: "(2 :: nat) ^ n = 2 * 2 ^ (n - 1)"
    using n by (simp add: power_eq_if)
  have "odd m"
    by (simp add: m pw)
  with q(1) have "odd q"
    by (auto elim: dvd_trans)
  with q(2) have q2: "2 < q"
    by (cases "q = 2") auto
  from q(1) obtain c where c: "m = q * c"
    by (auto elim: dvdE)
  have "c \<noteq> 0"
    using c m by (auto intro: ccontr)
  then obtain c' where c': "c = Suc c'"
    by (cases c) auto
  from q2 obtain q' where q': "q = Suc q'"
    by (cases q) auto
  have "m - 1 = q * c' + q'"
    by (simp add: c c' q')
  then have "(m - 1) mod q = q' mod q"
    by (simp only: mod_mult_self4)
  then have m1: "(m - 1) mod q = q - 1"
    by (simp add: q')
  have "(a ^ k) ^ (2 ^ (n - 1)) mod q = a ^ (k * 2 ^ (n - 1)) mod q"
    by (simp only: power_mult)
  also have "\<dots> = (a ^ (k * 2 ^ (n - 1)) mod m) mod q"
    using q(1) by (simp only: mod_mod_cancel)
  also have "\<dots> = q - 1"
    by (simp only: a m1)
  finally have "(a ^ k) ^ (2 ^ (n - 1)) mod q = q - 1" .
  with q2 show ?thesis
    using n by (rule many_residues)
qed

lemma proth_prime:
  fixes a k n :: nat
  assumes n: "0 < n" and k: "0 < k" "k < 2 ^ n"
    and a: "a ^ (k * 2 ^ (n - 1)) mod (k * 2 ^ n + 1) = k * 2 ^ n"
  shows "is_prime (k * 2 ^ n + 1)"
proof (rule ccontr)
  let ?N = "(2 :: nat) ^ n"
  let ?m = "k * ?N + 1"
  assume np: "\<not> is_prime ?m"
  have "1 < ?m"
    using k(1) by simp
  from composite_small_divisor [OF this np] obtain q where
    q: "1 < q" "q dvd ?m" "q * q \<le> ?m"
    by blast
  have a': "a ^ (k * 2 ^ (n - 1)) mod ?m = ?m - 1"
    using a by simp
  have "?N < q"
    using n refl a' q(2) q(1) by (rule proth_divisor_large)
  then have Nq: "?N + 1 \<le> q"
    by simp
  from Nq Nq have "(?N + 1) * (?N + 1) \<le> q * q"
    by (rule mult_le_mono)
  with q(3) have "(?N + 1) * (?N + 1) \<le> k * ?N + 1"
    by simp
  then have "?N * ?N + 2 * ?N \<le> k * ?N"
    by (simp add: algebra_simps)
  moreover have "k * ?N \<le> ?N * ?N"
    using k(2) by simp
  moreover have "0 < ?N"
    by simp
  ultimately show False
    by linarith
qed

lemma proth_prime_by_pow:
  fixes a e m r :: u64
  assumes run: "symmetrix_galois_pow a e m = Inr r"
    and e: "unat e = k * 2 ^ (n - 1)" and m: "unat m = k * 2 ^ n + 1" and r: "unat r = k * 2 ^ n"
    and n: "0 < n" and k: "0 < k" "k < 2 ^ n"
  shows "is_prime (unat m)"
proof -
  have "0 < unat m"
    by (simp add: m)
  then have mnz: "m \<noteq> 0"
    by (simp add: unat_gt_0)
  have "0 < unat e"
    using k(1) by (simp add: e)
  then have epos: "0 < e"
    by (simp add: word_less_nat_alt)
  from galois_pow_power [OF mnz epos, of a] run
  have "unat r = unat a ^ unat e mod unat m"
    by auto
  then have "unat a ^ (k * 2 ^ (n - 1)) mod (k * 2 ^ n + 1) = k * 2 ^ n"
    by (simp only: e m r)
  with n k have "is_prime (k * 2 ^ n + 1)"
    by (rule proth_prime)
  then show ?thesis
    by (simp only: m)
qed

lemma proth_prime_27_2_59: "is_prime 15564440312192434177"
proof -
  have run: "symmetrix_galois_pow 5 7782220156096217088 15564440312192434177 = Inr 15564440312192434176"
    by code_simp
  have "is_prime (unat (15564440312192434177 :: u64))"
  proof (rule proth_prime_by_pow [OF run, of 27 59])
    show "unat (7782220156096217088 :: u64) = 27 * 2 ^ (59 - 1)"
      by simp
    show "unat (15564440312192434177 :: u64) = 27 * 2 ^ 59 + 1"
      by simp
    show "unat (15564440312192434176 :: u64) = 27 * 2 ^ 59"
      by simp
    show "(0 :: nat) < 59" "(0 :: nat) < 27" "(27 :: nat) < 2 ^ 59"
      by simp_all
  qed
  then show ?thesis
    by simp
qed

lemma prime_coprime:
  assumes p: "is_prime p" and a: "0 < a" "a < p"
  shows "coprime a p"
proof -
  have "gcd a p dvd p"
    by simp
  with p have "gcd a p = 1 \<or> gcd a p = p"
    by (simp add: is_prime_def)
  moreover have "gcd a p \<noteq> p"
  proof
    assume "gcd a p = p"
    then have "p dvd a"
      by (metis gcd_dvd1)
    with a(1) have "p \<le> a"
      by (simp add: dvd_imp_le)
    with a(2) show False
      by simp
  qed
  ultimately show ?thesis
    by (simp add: coprime_iff_gcd_eq_1)
qed

lemma proth_prime_29_2_57: "is_prime 4179340454199820289"
proof -
  have run: "symmetrix_galois_pow 3 2089670227099910144 4179340454199820289 = Inr 4179340454199820288"
    by code_simp
  have "is_prime (unat (4179340454199820289 :: u64))"
  proof (rule proth_prime_by_pow [OF run, of 29 57])
    show "unat (2089670227099910144 :: u64) = 29 * 2 ^ (57 - 1)"
      by simp
    show "unat (4179340454199820289 :: u64) = 29 * 2 ^ 57 + 1"
      by simp
    show "unat (4179340454199820288 :: u64) = 29 * 2 ^ 57"
      by simp
    show "(0 :: nat) < 57" "(0 :: nat) < 29" "(29 :: nat) < 2 ^ 57"
      by simp_all
  qed
  then show ?thesis
    by simp
qed

section \<open>Multiplication and exponentiation\<close>

text \<open>
  Claim C5. For field elements \<open>a\<close>, \<open>b\<close> with the same nonzero modulus \<open>m\<close>, including
  moduli above \<open>2^32\<close> where the product of the two values does not fit in 64 bits,
  \<open>mul(a, b)\<close> returns, without any message, the element tagged \<open>m\<close> whose value is
  exactly \<open>(a.value * b.value) mod m\<close> computed on unbounded integers.
\<close>

theorem galois_mul_exact:
  "modulus a = modulus b \<Longrightarrow> modulus a \<noteq> 0 \<Longrightarrow>
     \<exists>r. symmetrix_galois_mul a b = ([], Inr r)
         \<and> modulus r = modulus a
         \<and> unat (val r) = (unat (val a) * unat (val b)) mod unat (modulus a)"
  by (simp add: symmetrix_galois_mul_def unat_mulmod_u128)

theorem galois_mul_exact_witness:
  "modulus \<lparr>val = 9223372036854775808, modulus = 18446744073709551557\<rparr>
     = modulus \<lparr>val = 9223372036854775813, modulus = 18446744073709551557\<rparr>
   \<and> modulus \<lparr>val = 9223372036854775808, modulus = 18446744073709551557\<rparr> \<noteq> 0
   \<and> (\<exists>r. symmetrix_galois_mul \<lparr>val = 9223372036854775808, modulus = 18446744073709551557\<rparr>
                                  \<lparr>val = 9223372036854775813, modulus = 18446744073709551557\<rparr> = ([], Inr r)
          \<and> modulus r = 18446744073709551557
          \<and> unat (val r) = 4611686018427388907)"
  using galois_mul_exact [of "\<lparr>val = 9223372036854775808, modulus = 18446744073709551557\<rparr>"
                             "\<lparr>val = 9223372036854775813, modulus = 18446744073709551557\<rparr>"]
  by simp

text \<open>
  Claim C10. For every base and every modulus \<open>m \<ge> 1\<close>, \<open>pow(base, 0, m)\<close> returns \<open>1\<close>
  without reducing it: for \<open>m = 1\<close> the result equals the modulus and is not below it.
  For every exponent \<open>e \<ge> 1\<close> and \<open>m \<ge> 1\<close> the call returns a value strictly below \<open>m\<close>.
\<close>

theorem pow_zero_exponent_unreduced:
  "m \<noteq> 0 \<Longrightarrow>
     symmetrix_galois_pow base 0 m = Inr 1
     \<and> (m = 1 \<longrightarrow> (\<exists>r. symmetrix_galois_pow base 0 m = Inr r \<and> r = m \<and> \<not> r < m))
     \<and> (0 < e \<longrightarrow> (\<exists>r. symmetrix_galois_pow base e m = Inr r \<and> r < m))"
  by (simp add: symmetrix_galois_pow_def pow_loop_less pow_loop.simps [of _ _ 0])

theorem pow_zero_exponent_unreduced_witness:
  "(1 :: u64) \<noteq> 0 \<and> (0 :: u64) < 5
   \<and> symmetrix_galois_pow 7 0 1 = Inr 1
   \<and> (\<exists>r. symmetrix_galois_pow 7 0 1 = Inr r \<and> r = 1 \<and> \<not> r < 1)
   \<and> (\<exists>r. symmetrix_galois_pow 7 5 1 = Inr r \<and> r < 1)"
  using pow_zero_exponent_unreduced [of 1 7 5] by simp

section \<open>Modulus mismatch\<close>

text \<open>
  Claim C7. When \<open>a.modulus\<close> and \<open>b.modulus\<close> differ, both \<open>add(a, b)\<close> and \<open>mul(a, b)\<close>
  log one warning and return normally the element with value \<open>0\<close> and \<open>a\<close>'s modulus.
\<close>

theorem modulus_mismatch_degraded:
  "modulus a \<noteq> modulus b \<Longrightarrow>
     symmetrix_galois_add a b =
       ([''symmetrix: Galois add with different moduli''], Inr \<lparr>val = 0, modulus = modulus a\<rparr>)
     \<and> symmetrix_galois_mul a b =
       ([''symmetrix: Galois mul with different moduli''], Inr \<lparr>val = 0, modulus = modulus a\<rparr>)"
  by (simp add: symmetrix_galois_add_def symmetrix_galois_mul_def)

theorem modulus_mismatch_degraded_witness:
  "modulus \<lparr>val = 3, modulus = 7\<rparr> \<noteq> modulus \<lparr>val = 4, modulus = 11\<rparr>
   \<and> symmetrix_galois_add \<lparr>val = 3, modulus = 7\<rparr> \<lparr>val = 4, modulus = 11\<rparr> =
       ([''symmetrix: Galois add with different moduli''], Inr \<lparr>val = 0, modulus = 7\<rparr>)
   \<and> symmetrix_galois_mul \<lparr>val = 3, modulus = 7\<rparr> \<lparr>val = 4, modulus = 11\<rparr> =
       ([''symmetrix: Galois mul with different moduli''], Inr \<lparr>val = 0, modulus = 7\<rparr>)"
  using modulus_mismatch_degraded [of "\<lparr>val = 3, modulus = 7\<rparr>" "\<lparr>val = 4, modulus = 11\<rparr>"]
  by simp

section \<open>Cache tiers of the allocator\<close>

text \<open>
  Claim C9. With the allocator enabled and both allocations succeeding, \<open>alloc(size)\<close>
  returns the payload pointer and logs one triple whose cache tier is \<open>1\<close> when
  \<open>size \<le> 64\<close>, \<open>2\<close> when \<open>64 < size \<le> 262144\<close> and \<open>3\<close> above; so \<open>alloc(32)\<close> gives tier
  \<open>1\<close>, \<open>alloc(1000)\<close> tier \<open>2\<close> and \<open>alloc(1000000)\<close> tier \<open>3\<close>.
\<close>

theorem tensor_alloc_cache_tier:
  "enable_tensor_allocator \<Longrightarrow>
   \<exists>mi. symmetrix_tensor_alloc enable_tensor_allocator (Some block_addr) (Some ptr) sz =
          ([(sz, mi, if unat sz \<le> 64 then 1 else if unat sz \<le> 262144 then 2 else 3)], Some ptr)"
  by (simp add: symmetrix_tensor_alloc_def L1_CACHE_BYTES_def L2_CACHE_BYTES_def word_le_nat_alt)

theorem tensor_alloc_cache_tier_witness:
  "True
   \<and> (\<exists>mi. symmetrix_tensor_alloc True (Some 4096) (Some 8192) 32 = ([(32, mi, 1)], Some 8192))
   \<and> (\<exists>mi. symmetrix_tensor_alloc True (Some 4096) (Some 8192) 1000 = ([(1000, mi, 2)], Some 8192))
   \<and> (\<exists>mi. symmetrix_tensor_alloc True (Some 4096) (Some 8192) 1000000 = ([(1000000, mi, 3)], Some 8192))"
  using tensor_alloc_cache_tier [of True 4096 8192 32]
        tensor_alloc_cache_tier [of True 4096 8192 1000]
        tensor_alloc_cache_tier [of True 4096 8192 1000000]
  by simp


section \<open>Range check of the CRT decomposition\<close>

text \<open>
  Claim C8, as stated, at the count \<open>-1\<close>: the count does not exceed the table size 8,
  yet on an initialised engine the call fails with \<open>EINVAL\<close> (and leaves the buffer as
  it was), because the guard compares the count as an unsigned value.
\<close>

theorem crt_decompose_negative_count_fails:
  "symmetrix_galois_init True True 2305843009213693951
     = Inr \<lparr>prime = 2305843009213693951, crt_primes = symmetrix_crt_primes, num_crt_primes = 8,
            power_cache = replicate 1024 \<lparr>val = 0, modulus = 2305843009213693951\<rparr>, cache_size = 1024\<rparr>
   \<and> sint (- 1 :: 32 word) \<le> 8
   \<and> symmetrix_crt_decompose
        \<lparr>prime = 2305843009213693951, crt_primes = symmetrix_crt_primes, num_crt_primes = 8,
         power_cache = replicate 1024 \<lparr>val = 0, modulus = 2305843009213693951\<rparr>, cache_size = 1024\<rparr>
        5 [99, 99, 99] (- 1) = (Inl EINVAL, [99, 99, 99])"
  by (simp add: galois_init_ok symmetrix_crt_decompose_def num_crt_primes_8)

text \<open>
  Claim C8, amended. On an initialised engine \<open>crt_decompose(value, k)\<close> fails with
  \<open>EINVAL\<close>, writing no residue, exactly when \<open>k > 8\<close> or \<open>k < 0\<close>. For every
  \<open>0 \<le> k \<le> 8\<close> (and a buffer of at least \<open>k\<close> slots) it succeeds, writes
  \<open>residues[i] = value mod p_i\<close> for the first \<open>k\<close> table primes and leaves every other
  slot as it was.
\<close>

theorem crt_decompose_range_check:
  assumes init: "symmetrix_galois_init True True p = Inr eng"
  shows "(sint k < 0 \<or> 8 < sint k \<longrightarrow>
            symmetrix_crt_decompose eng v residues k = (Inl EINVAL, residues))
       \<and> (0 \<le> sint k \<and> sint k \<le> 8 \<and> nat (sint k) \<le> length residues \<longrightarrow>
            (\<exists>res'. symmetrix_crt_decompose eng v residues k = (Inr (), res')
                 \<and> length res' = length residues
                 \<and> (\<forall>i < nat (sint k). res' ! i = v mod symmetrix_crt_primes ! i)
                 \<and> (\<forall>i. nat (sint k) \<le> i \<longrightarrow> res' ! i = residues ! i)))"
proof (intro conjI impI)
  assume "sint k < 0 \<or> 8 < sint k"
  then show "symmetrix_crt_decompose eng v residues k = (Inl EINVAL, residues)"
    by (simp add: symmetrix_crt_decompose_def num_crt_primes_8 count_guard)
next
  assume k: "0 \<le> sint k \<and> sint k \<le> 8 \<and> nat (sint k) \<le> length residues"
  let ?n = "nat (sint k)"
  from k have n8: "?n \<le> 8"
    by linarith
  have guard: "\<not> (8 :: u64) < scast k"
    using k by (simp add: count_guard)
  have "\<forall>i \<in> set [0..<?n]. symmetrix_crt_primes ! i \<noteq> 0"
  proof
    fix i
    assume "i \<in> set [0..<?n]"
    with n8 have "i < 8"
      by simp
    then show "symmetrix_crt_primes ! i \<noteq> 0"
      by (rule crt_primes_nonzero)
  qed
  from crt_decompose_loop_writes [OF this, of v residues] obtain res' where
    run: "crt_decompose_loop symmetrix_crt_primes v [0..<?n] residues = (Inr (), res')" and
    len: "length res' = length residues" and
    keep: "\<forall>j. j \<notin> set [0..<?n] \<longrightarrow> res' ! j = residues ! j" and
    wr: "\<forall>i \<in> set [0..<?n]. i < length residues \<longrightarrow> res' ! i = v mod symmetrix_crt_primes ! i"
    by blast
  have "symmetrix_crt_decompose eng v residues k = (Inr (), res')"
    using guard run by (simp add: symmetrix_crt_decompose_def num_crt_primes_8 crt_primes_init [OF init])
  moreover have "\<forall>i < ?n. res' ! i = v mod symmetrix_crt_primes ! i"
    using wr k by simp
  moreover have "\<forall>i. ?n \<le> i \<longrightarrow> res' ! i = residues ! i"
    using keep by simp
  ultimately show "\<exists>res'. symmetrix_crt_decompose eng v residues k = (Inr (), res')
                 \<and> length res' = length residues
                 \<and> (\<forall>i < nat (sint k). res' ! i = v mod symmetrix_crt_primes ! i)
                 \<and> (\<forall>i. nat (sint k) \<le> i \<longrightarrow> res' ! i = residues ! i)"
    using len by blast
qed

theorem crt_decompose_range_check_witness:
  "symmetrix_galois_init True True 2305843009213693951
     = Inr \<lparr>prime = 2305843009213693951, crt_primes = symmetrix_crt_primes, num_crt_primes = 8,
            power_cache = replicate 1024 \<lparr>val = 0, modulus = 2305843009213693951\<rparr>, cache_size = 1024\<rparr>
   \<and> 8 < sint (9 :: 32 word)
   \<and> symmetrix_crt_decompose
        \<lparr>prime = 2305843009213693951, crt_primes = symmetrix_crt_primes, num_crt_primes = 8,
         power_cache = replicate 1024 \<lparr>val = 0, modulus = 2305843009213693951\<rparr>, cache_size = 1024\<rparr>
        4294967301 [99, 99, 99] 9 = (Inl EINVAL, [99, 99, 99])
   \<and> 0 \<le> sint (2 :: 32 word) \<and> sint (2 :: 32 word) \<le> 8
   \<and> nat (sint (2 :: 32 word)) \<le> length [99, 99, 99 :: u64]
   \<and> (\<exists>res'. symmetrix_crt_decompose
        \<lparr>prime = 2305843009213693951, crt_primes = symmetrix_crt_primes, num_crt_primes = 8,
         power_cache = replicate 1024 \<lparr>val = 0, modulus = 2305843009213693951\<rparr>, cache_size = 1024\<rparr>
        4294967301 [99, 99, 99] 2 = (Inr (), res')
        \<and> length res' = 3 \<and> res' ! 0 = 7 \<and> res' ! 1 = 43 \<and> res' ! 2 = 99)"
proof -
  let ?E = "\<lparr>prime = 2305843009213693951, crt_primes = symmetrix_crt_primes, num_crt_primes = 8,
             power_cache = replicate 1024 \<lparr>val = 0, modulus = 2305843009213693951\<rparr>,
             cache_size = 1024\<rparr> :: galois_engine"
  have init: "symmetrix_galois_init True True 2305843009213693951 = Inr ?E"
    by (rule galois_init_ok)
  have big: "8 < sint (9 :: 32 word)"
    by simp
  have small: "0 \<le> sint (2 :: 32 word) \<and> sint (2 :: 32 word) \<le> 8
               \<and> nat (sint (2 :: 32 word)) \<le> length [99, 99, 99 :: u64]"
    by simp
  note rc9 = crt_decompose_range_check [OF init, of 9 4294967301 "[99, 99, 99]"]
  note rc2 = crt_decompose_range_check [OF init, of 2 4294967301 "[99, 99, 99]"]
  from rc9 big have fail: "symmetrix_crt_decompose ?E 4294967301 [99, 99, 99] 9 = (Inl EINVAL, [99, 99, 99])"
    by blast
  from rc2 small obtain res' where
    run: "symmetrix_crt_decompose ?E 4294967301 [99, 99, 99] 2 = (Inr (), res')" and
    len: "length res' = length [99, 99, 99 :: u64]" and
    wr: "\<forall>i < nat (sint (2 :: 32 word)). res' ! i = 4294967301 mod symmetrix_crt_primes ! i" and
    keep: "\<forall>i. nat (sint (2 :: 32 word)) \<le> i \<longrightarrow> res' ! i = [99, 99, 99] ! i"
    by blast
  from wr have "res' ! 0 = 4294967301 mod symmetrix_crt_primes ! 0"
    and "res' ! 1 = 4294967301 mod symmetrix_crt_primes ! 1"
    by simp_all
  then have r01: "res' ! 0 = 7" "res' ! 1 = 43"
    by (simp_all add: symmetrix_crt_primes_def)
  from keep have r2: "res' ! 2 = 99"
    by simp
  from run len r01 r2 have "\<exists>res'. symmetrix_crt_decompose ?E 4294967301 [99, 99, 99] 2 = (Inr (), res')
        \<and> length res' = 3 \<and> res' ! 0 = 7 \<and> res' ! 1 = 43 \<and> res' ! 2 = 99"
    by auto
  with init big fail small show ?thesis
    by blast
qed


section \<open>The sampler's diagnostic dimension\<close>

text \<open>
  Claim C3, as stated, on two stalks with the same capacities, one loaded and one idle
  (the stalks of the specification's selector example): the grand total of the absolute
  differences between their \<open>allocated[]\<close> vectors is \<open>910580\<close>, not zero, yet the
  sampler publishes dimension \<open>0\<close>. The code compares the \<open>resources[]\<close> vectors.
\<close>

theorem cohomology_dimension_ignores_allocated:
  "dimension (h2_cohomology (cohomology_thread_step 6
       \<lparr>cpu_stalks =
          [\<lparr>node_id = 0, resources = [1000, 1024000, 100, 1000, 10240, 1000],
            allocated = [900, 900000, 80, 800, 8000, 800]\<rparr>,
           \<lparr>node_id = 1, resources = [1000, 1024000, 100, 1000, 10240, 1000],
            allocated = [0, 0, 0, 0, 0, 0]\<rparr>],
        h2_cohomology = \<lparr>dimension = 0, computed_at = 0, valid = False\<rparr>\<rparr> (2, 30000))) = 0
   \<and> pairwise_total allocated 6
        [\<lparr>node_id = 0, resources = [1000, 1024000, 100, 1000, 10240, 1000],
          allocated = [900, 900000, 80, 800, 8000, 800]\<rparr>,
         \<lparr>node_id = 1, resources = [1000, 1024000, 100, 1000, 10240, 1000],
          allocated = [0, 0, 0, 0, 0, 0]\<rparr>] 2 = 910580"
proof -
  have "symmetrix_compute_h2_cohomology 6
        [\<lparr>node_id = 0, resources = [1000, 1024000, 100, 1000, 10240, 1000],
          allocated = [900, 900000, 80, 800, 8000, 800]\<rparr>,
         \<lparr>node_id = 1, resources = [1000, 1024000, 100, 1000, 10240, 1000],
          allocated = [0, 0, 0, 0, 0, 0]\<rparr>] 2 = 0"
    by code_simp
  then have d: "dimension (h2_cohomology (cohomology_thread_step 6
       \<lparr>cpu_stalks =
          [\<lparr>node_id = 0, resources = [1000, 1024000, 100, 1000, 10240, 1000],
            allocated = [900, 900000, 80, 800, 8000, 800]\<rparr>,
           \<lparr>node_id = 1, resources = [1000, 1024000, 100, 1000, 10240, 1000],
            allocated = [0, 0, 0, 0, 0, 0]\<rparr>],
        h2_cohomology = \<lparr>dimension = 0, computed_at = 0, valid = False\<rparr>\<rparr> (2, 30000))) = 0"
    by (simp add: published_dimension)
  have t: "pairwise_total allocated 6
        [\<lparr>node_id = 0, resources = [1000, 1024000, 100, 1000, 10240, 1000],
          allocated = [900, 900000, 80, 800, 8000, 800]\<rparr>,
         \<lparr>node_id = 1, resources = [1000, 1024000, 100, 1000, 10240, 1000],
          allocated = [0, 0, 0, 0, 0, 0]\<rparr>] 2 = 910580"
    by (simp add: pairwise_total_def vector_diff_def absdiff_def upt_rec)
  show ?thesis
    by (rule conjI [OF d t])
qed

text \<open>
  Claim C3, amended. The published dimension is \<open>0\<close> if and only if the grand total of
  the absolute per-kind differences between the \<open>resources[]\<close> (capacity) vectors of
  every unordered pair among the first \<open>num_online_cpus()\<close> stalks is zero, and \<open>1\<close>
  otherwise, as long as that total is below \<open>2^64\<close>. In particular it is \<open>0\<close> when
  all these stalks carry identical \<open>resources[]\<close> vectors, whatever their
  \<open>allocated[]\<close> vectors, and \<open>1\<close> when the capacity of any single kind differs
  between any pair (total below \<open>2^64\<close>).
\<close>

theorem cohomology_dimension_from_capacities:
  "(pairwise_total resources rmax (cpu_stalks sys) (nat n) < 2 ^ 64 \<longrightarrow>
      dimension (h2_cohomology (cohomology_thread_step rmax sys (n, t)))
        = (if pairwise_total resources rmax (cpu_stalks sys) (nat n) = 0 then 0 else 1))
   \<and> ((\<forall>i j. i < j \<and> j < nat n \<longrightarrow> resources (cpu_stalks sys ! i) = resources (cpu_stalks sys ! j)) \<longrightarrow>
      dimension (h2_cohomology (cohomology_thread_step rmax sys (n, t))) = 0)
   \<and> (pairwise_total resources rmax (cpu_stalks sys) (nat n) < 2 ^ 64
      \<and> (\<exists>i j k. i < j \<and> j < nat n \<and> k < rmax
                 \<and> resources (cpu_stalks sys ! i) ! k \<noteq> resources (cpu_stalks sys ! j) ! k) \<longrightarrow>
      dimension (h2_cohomology (cohomology_thread_step rmax sys (n, t))) = 1)"
proof -
  let ?T = "pairwise_total resources rmax (cpu_stalks sys) (nat n)"
  let ?D = "dimension (h2_cohomology (cohomology_thread_step rmax sys (n, t)))"
  have D: "?D = (if (of_nat ?T :: u64) = 0 then 0 else 1)"
    by (simp add: cohomology_thread_step_def symmetrix_compute_h2_cohomology_def
        obstruction_sum_of_nat)
  have a: "?T < 2 ^ 64 \<longrightarrow> ?D = (if ?T = 0 then 0 else 1)"
    by (simp add: D of_nat_u64_eq_0_iff)
  have b: "(\<forall>i j. i < j \<and> j < nat n \<longrightarrow> resources (cpu_stalks sys ! i) = resources (cpu_stalks sys ! j))
           \<longrightarrow> ?D = 0"
  proof
    assume "\<forall>i j. i < j \<and> j < nat n \<longrightarrow> resources (cpu_stalks sys ! i) = resources (cpu_stalks sys ! j)"
    then have "\<forall>i j k. i < j \<and> j < nat n \<and> k < rmax \<longrightarrow>
        resources (cpu_stalks sys ! i) ! k = resources (cpu_stalks sys ! j) ! k"
      by metis
    then have "?T = 0"
      by (simp only: pairwise_total_eq_0_iff)
    then show "?D = 0"
      by (simp add: D)
  qed
  have c: "?T < 2 ^ 64
      \<and> (\<exists>i j k. i < j \<and> j < nat n \<and> k < rmax
                 \<and> resources (cpu_stalks sys ! i) ! k \<noteq> resources (cpu_stalks sys ! j) ! k) \<longrightarrow> ?D = 1"
  proof
    assume h: "?T < 2 ^ 64
      \<and> (\<exists>i j k. i < j \<and> j < nat n \<and> k < rmax
                 \<and> resources (cpu_stalks sys ! i) ! k \<noteq> resources (cpu_stalks sys ! j) ! k)"
    then have "?T \<noteq> 0"
      unfolding pairwise_total_eq_0_iff by blast
    with h a show "?D = 1"
      by simp
  qed
  show ?thesis
    by (rule conjI [OF a conjI [OF b c]])
qed

theorem cohomology_dimension_from_capacities_witness:
  "pairwise_total resources 6
        [\<lparr>node_id = 0, resources = [1000, 1024000, 100, 1000, 10240, 1000],
          allocated = [900, 900000, 80, 800, 8000, 800]\<rparr>,
         \<lparr>node_id = 1, resources = [1000, 1024000, 100, 1000, 10240, 1000],
          allocated = [0, 0, 0, 0, 0, 0]\<rparr>] (nat 2) < 2 ^ 64
   \<and> resources ([\<lparr>node_id = 0, resources = [1000, 1024000, 100, 1000, 10240, 1000],
                    allocated = [900, 900000, 80, 800, 8000, 800]\<rparr>,
                   \<lparr>node_id = 1, resources = [1000, 1024000, 100, 1000, 10240, 1000],
                    allocated = [0, 0, 0, 0, 0, 0]\<rparr>] ! 0)
       = resources ([\<lparr>node_id = 0, resources = [1000, 1024000, 100, 1000, 10240, 1000],
                    allocated = [900, 900000, 80, 800, 8000, 800]\<rparr>,
                   \<lparr>node_id = 1, resources = [1000, 1024000, 100, 1000, 10240, 1000],
                    allocated = [0, 0, 0, 0, 0, 0]\<rparr>] ! 1)
   \<and> dimension (h2_cohomology (cohomology_thread_step 6
       \<lparr>cpu_stalks =
          [\<lparr>node_id = 0, resources = [1000, 1024000, 100, 1000, 10240, 1000],
            allocated = [900, 900000, 80, 800, 8000, 800]\<rparr>,
           \<lparr>node_id = 1, resources = [1000, 1024000, 100, 1000, 10240, 1000],
            allocated = [0, 0, 0, 0, 0, 0]\<rparr>],
        h2_cohomology = \<lparr>dimension = 0, computed_at = 0, valid = False\<rparr>\<rparr> (2, 30000))) = 0
   \<and> pairwise_total resources 6
        [\<lparr>node_id = 0, resources = [1000, 1024000, 100, 1000, 10240, 1000],
          allocated = [0, 0, 0, 0, 0, 0]\<rparr>,
         \<lparr>node_id = 1, resources = [2000, 1024000, 100, 1000, 10240, 1000],
          allocated = [0, 0, 0, 0, 0, 0]\<rparr>] (nat 2) < 2 ^ 64
   \<and> resources ([\<lparr>node_id = 0, resources = [1000, 1024000, 100, 1000, 10240, 1000],
                    allocated = [0, 0, 0, 0, 0, 0]\<rparr>,
                   \<lparr>node_id = 1, resources = [2000, 1024000, 100, 1000, 10240, 1000],
                    allocated = [0, 0, 0, 0, 0, 0]\<rparr>] ! 0) ! 0
       \<noteq> resources ([\<lparr>node_id = 0, resources = [1000, 1024000, 100, 1000, 10240, 1000],
                    allocated = [0, 0, 0, 0, 0, 0]\<rparr>,
                   \<lparr>node_id = 1, resources = [2000, 1024000, 100, 1000, 10240, 1000],
                    allocated = [0, 0, 0, 0, 0, 0]\<rparr>] ! 1) ! 0
   \<and> dimension (h2_cohomology (cohomology_thread_step 6
       \<lparr>cpu_stalks =
          [\<lparr>node_id = 0, resources = [1000, 1024000, 100, 1000, 10240, 1000],
            allocated = [0, 0, 0, 0, 0, 0]\<rparr>,
           \<lparr>node_id = 1, resources = [2000, 1024000, 100, 1000, 10240, 1000],
            allocated = [0, 0, 0, 0, 0, 0]\<rparr>],
        h2_cohomology = \<lparr>dimension = 0, computed_at = 0, valid = False\<rparr>\<rparr> (2, 30000))) = 1"
proof -
  let ?S1 = "[\<lparr>node_id = 0, resources = [1000, 1024000, 100, 1000, 10240, 1000],
              allocated = [900, 900000, 80, 800, 8000, 800]\<rparr>,
             \<lparr>node_id = 1, resources = [1000, 1024000, 100, 1000, 10240, 1000],
              allocated = [0, 0, 0, 0, 0, 0]\<rparr>] :: resource_stalk list"
  let ?S2 = "[\<lparr>node_id = 0, resources = [1000, 1024000, 100, 1000, 10240, 1000],
              allocated = [0, 0, 0, 0, 0, 0]\<rparr>,
             \<lparr>node_id = 1, resources = [2000, 1024000, 100, 1000, 10240, 1000],
              allocated = [0, 0, 0, 0, 0, 0]\<rparr>] :: resource_stalk list"
  let ?h = "\<lparr>dimension = 0, computed_at = 0, valid = False\<rparr> :: cohomology_state"
  have t1: "pairwise_total resources 6 ?S1 (nat 2) = 0"
    by (simp add: pairwise_total_def vector_diff_def absdiff_def upt_rec)
  have t2: "pairwise_total resources 6 ?S2 (nat 2) = 1000"
    by (simp add: pairwise_total_def vector_diff_def absdiff_def upt_rec)
  have ne: "resources (?S2 ! 0) ! 0 \<noteq> resources (?S2 ! 1) ! 0"
    by simp
  have d1: "dimension (h2_cohomology (cohomology_thread_step 6
              \<lparr>cpu_stalks = ?S1, h2_cohomology = ?h\<rparr> (2, 30000))) = 0"
    using cohomology_dimension_from_capacities
            [of 6 "\<lparr>cpu_stalks = ?S1, h2_cohomology = ?h\<rparr>" 2 30000] t1
    by simp
  have "\<exists>i j k. i < j \<and> j < nat 2 \<and> k < (6 :: nat) \<and> resources (?S2 ! i) ! k \<noteq> resources (?S2 ! j) ! k"
    using ne by (intro exI [of _ 0] exI [of _ 1]) simp
  then have d2: "dimension (h2_cohomology (cohomology_thread_step 6
              \<lparr>cpu_stalks = ?S2, h2_cohomology = ?h\<rparr> (2, 30000))) = 1"
    using cohomology_dimension_from_capacities
            [of 6 "\<lparr>cpu_stalks = ?S2, h2_cohomology = ?h\<rparr>" 2 30000] t2
    by simp
  from t1 t2 ne d1 d2 show ?thesis
    by simp
qed


section \<open>Addition and inversion: the moduli the arithmetic supports\<close>

text \<open>
  Claim C4, as stated, for the modulus \<open>m = 2^64 - 59\<close> and the reduced values
  \<open>a.value = b.value = m - 1\<close>: \<open>(a.value + b.value) mod m\<close> is \<open>m - 2\<close>
  (\<open>18446744073709551555\<close>), but \<open>add(a, b)\<close> returns \<open>2^64 - 120\<close>
  (\<open>18446744073709551496\<close>), because the sum is formed in 64 bits and wraps before it
  is reduced.
\<close>

theorem galois_add_wraps_before_reducing:
  "modulus \<lparr>val = 18446744073709551556, modulus = 18446744073709551557\<rparr>
     = modulus \<lparr>val = 18446744073709551556, modulus = 18446744073709551557\<rparr>
   \<and> modulus \<lparr>val = 18446744073709551556, modulus = 18446744073709551557\<rparr> \<noteq> 0
   \<and> symmetrix_galois_add \<lparr>val = 18446744073709551556, modulus = 18446744073709551557\<rparr>
                          \<lparr>val = 18446744073709551556, modulus = 18446744073709551557\<rparr>
     = ([], Inr \<lparr>val = 18446744073709551496, modulus = 18446744073709551557\<rparr>)
   \<and> (unat (val \<lparr>val = 18446744073709551556, modulus = 18446744073709551557\<rparr>)
        + unat (val \<lparr>val = 18446744073709551556, modulus = 18446744073709551557\<rparr>))
       mod unat (modulus \<lparr>val = 18446744073709551556, modulus = 18446744073709551557\<rparr>)
     = 18446744073709551555
   \<and> unat (18446744073709551496 :: u64) \<noteq> 18446744073709551555"
  by (simp add: symmetrix_galois_add_def)

text \<open>
  Claim C4, amended. For every pair of field elements \<open>(a, b)\<close> with equal modulus
  \<open>m > 0\<close>, \<open>add(a, b)\<close> returns, without any message, an element tagged \<open>m\<close> whose
  value is below \<open>m\<close> and equals \<open>((a.value + b.value) mod 2^64) mod m\<close>; it equals
  \<open>(a.value + b.value) mod m\<close> whenever \<open>a.value + b.value < 2^64\<close>, as it is for
  reduced operands and a modulus up to \<open>2^63\<close>.
\<close>

theorem galois_add_exact_without_carry:
  assumes "modulus a = modulus b" and "modulus a \<noteq> 0"
  shows "\<exists>r. symmetrix_galois_add a b = ([], Inr r)
           \<and> modulus r = modulus a
           \<and> val r < modulus a
           \<and> unat (val r) = ((unat (val a) + unat (val b)) mod 2 ^ 64) mod unat (modulus a)
           \<and> (unat (val a) + unat (val b) < 2 ^ 64 \<longrightarrow>
                unat (val r) = (unat (val a) + unat (val b)) mod unat (modulus a))"
proof -
  let ?v = "(val a + val b) mod modulus a"
  have run: "symmetrix_galois_add a b = ([], Inr \<lparr>val = ?v, modulus = modulus a\<rparr>)"
    using assms by (simp add: symmetrix_galois_add_def)
  have pos: "0 < unat (modulus a)"
    using assms(2) by (simp add: unat_gt_0)
  have u: "unat ?v = ((unat (val a) + unat (val b)) mod 2 ^ 64) mod unat (modulus a)"
    by (simp add: unat_mod unat_word_ariths)
  then have "unat ?v < unat (modulus a)"
    using pos by simp
  then have lt: "?v < modulus a"
    by (simp add: word_less_nat_alt)
  from run lt u show ?thesis
    by simp
qed

theorem galois_add_exact_without_carry_witness:
  "modulus \<lparr>val = 2305843009213693950, modulus = 2305843009213693951\<rparr>
     = modulus \<lparr>val = 5, modulus = 2305843009213693951\<rparr>
   \<and> modulus \<lparr>val = 2305843009213693950, modulus = 2305843009213693951\<rparr> \<noteq> 0
   \<and> unat (val \<lparr>val = 2305843009213693950, modulus = 2305843009213693951\<rparr>)
       + unat (val \<lparr>val = 5, modulus = 2305843009213693951\<rparr>) < 2 ^ 64
   \<and> (\<exists>r. symmetrix_galois_add \<lparr>val = 2305843009213693950, modulus = 2305843009213693951\<rparr>
                                  \<lparr>val = 5, modulus = 2305843009213693951\<rparr> = ([], Inr r)
          \<and> modulus r = 2305843009213693951
          \<and> val r < 2305843009213693951
          \<and> unat (val r) = 4)"
  using galois_add_exact_without_carry
          [of "\<lparr>val = 2305843009213693950, modulus = 2305843009213693951\<rparr>"
              "\<lparr>val = 5, modulus = 2305843009213693951\<rparr>"]
  by simp

text \<open>
  Claim C6, as stated, for the modulus \<open>m = 27 * 2^59 + 1 = 15564440312192434177\<close>,
  which is prime, and the value \<open>2\<close>, which is nonzero and below \<open>m\<close>: \<open>inv\<close> returns
  \<open>1441151880758558719\<close> without any message, and \<open>mul(a, inv(a))\<close> has the value
  \<open>2882303761517117438\<close>, not \<open>1\<close>. The modulus is read into a signed 64-bit local,
  where it is \<open>-2882303761517117439\<close>.
\<close>

theorem galois_inv_wrong_above_int64:
  "is_prime (unat (modulus \<lparr>val = 2, modulus = 15564440312192434177\<rparr>))
   \<and> 0 < val \<lparr>val = 2, modulus = 15564440312192434177\<rparr>
   \<and> val \<lparr>val = 2, modulus = 15564440312192434177\<rparr>
       < modulus \<lparr>val = 2, modulus = 15564440312192434177\<rparr>
   \<and> symmetrix_galois_inv \<lparr>val = 2, modulus = 15564440312192434177\<rparr>
     = ([], Inr \<lparr>val = 1441151880758558719, modulus = 15564440312192434177\<rparr>)
   \<and> symmetrix_galois_mul \<lparr>val = 2, modulus = 15564440312192434177\<rparr>
                          \<lparr>val = 1441151880758558719, modulus = 15564440312192434177\<rparr>
     = ([], Inr \<lparr>val = 2882303761517117438, modulus = 15564440312192434177\<rparr>)
   \<and> (2882303761517117438 :: u64) \<noteq> 1"
  using proth_prime_27_2_59
  by (simp add: symmetrix_galois_inv_def symmetrix_galois_mul_def inv_loop.simps sdiv64_def word_sless_alt)

text \<open>
  Claim C6, amended. For every field element \<open>a\<close> with a prime modulus \<open>m\<close> below
  \<open>2^63\<close> and \<open>0 < a.value < m\<close>, \<open>inv(a)\<close> returns, without any message, an element
  tagged \<open>m\<close> with a value below \<open>m\<close>, and \<open>mul(a, inv(a)).value == 1\<close>.
\<close>

theorem galois_inv_prime_below_int64:
  assumes "is_prime (unat (modulus a))" and "unat (modulus a) < 2 ^ 63"
    and "0 < val a" and "val a < modulus a"
  shows "\<exists>i r. symmetrix_galois_inv a = ([], Inr i) \<and> modulus i = modulus a \<and> val i < modulus a
           \<and> symmetrix_galois_mul a i = ([], Inr r) \<and> val r = 1"
proof -
  have "0 < unat (val a)" and "unat (val a) < unat (modulus a)"
    using assms(3,4) by (simp_all add: word_less_nat_alt)
  with assms(1) have "coprime (unat (val a)) (unat (modulus a))"
    by (rule prime_coprime)
  with assms(2,3,4) show ?thesis
    by (rule galois_inv_below_int64)
qed

theorem galois_inv_prime_below_int64_witness:
  "is_prime (unat (modulus \<lparr>val = 12345, modulus = 4179340454199820289\<rparr>))
   \<and> unat (modulus \<lparr>val = 12345, modulus = 4179340454199820289\<rparr>) < 2 ^ 63
   \<and> 0 < val \<lparr>val = 12345, modulus = 4179340454199820289\<rparr>
   \<and> val \<lparr>val = 12345, modulus = 4179340454199820289\<rparr>
       < modulus \<lparr>val = 12345, modulus = 4179340454199820289\<rparr>
   \<and> (\<exists>i r. symmetrix_galois_inv \<lparr>val = 12345, modulus = 4179340454199820289\<rparr> = ([], Inr i)
          \<and> modulus i = 4179340454199820289 \<and> val i < 4179340454199820289
          \<and> symmetrix_galois_mul \<lparr>val = 12345, modulus = 4179340454199820289\<rparr> i = ([], Inr r)
          \<and> val r = 1)"
proof -
  let ?a = "\<lparr>val = 12345, modulus = 4179340454199820289\<rparr> :: galois_element"
  have p: "is_prime (unat (modulus ?a))"
    using proth_prime_29_2_57 by simp
  have b: "unat (modulus ?a) < 2 ^ 63"
    by simp
  have z: "0 < val ?a"
    by simp
  have l: "val ?a < modulus ?a"
    by simp
  from galois_inv_prime_below_int64 [OF p b z l]
  have "\<exists>i r. symmetrix_galois_inv ?a = ([], Inr i)
          \<and> modulus i = 4179340454199820289 \<and> val i < 4179340454199820289
          \<and> symmetrix_galois_mul ?a i = ([], Inr r) \<and> val r = 1"
    by simp
  with p b z l show ?thesis
    by blast
qed


section \<open>Inputs on which the code leaves the specification\<close>

text \<open>
  Claim C1. On the loaded stalk of the specification's own example (capacities
  \<open>[1000, 1024000, 100, 1000, 10240, 1000]\<close>, allocations
  \<open>[900, 900000, 80, 800, 8000, 800]\<close>) the formula
  \<open>sum of max(0, allocated[k] - 0.8 * capacity[k])\<close> gives \<open>100 + 80800 = 80900\<close>.
  The scan of \<open>select_cpu\<close> computes \<open>2^64 - 124100\<close> for this node: the two kinds
  above the threshold add \<open>allocated[k] - resources[k]\<close>, which is negative and wraps.
\<close>

theorem stalk_obstruction_underflows:
  "stalk_obstruction 6 \<lparr>node_id = 0, resources = [1000, 1024000, 100, 1000, 10240, 1000],
        allocated = [900, 900000, 80, 800, 8000, 800]\<rparr> = 18446744073709427516
   \<and> select_cpu_scan 6 \<lparr>cpu_stalks = [\<lparr>node_id = 0, resources = [1000, 1024000, 100, 1000, 10240, 1000],
        allocated = [900, 900000, 80, 800, 8000, 800]\<rparr>],
        h2_cohomology = \<lparr>dimension = 0, computed_at = 0, valid = False\<rparr>\<rparr> [0] 0
       = (0, 18446744073709427516)
   \<and> obstruction_spec 6 \<lparr>node_id = 0, resources = [1000, 1024000, 100, 1000, 10240, 1000],
        allocated = [900, 900000, 80, 800, 8000, 800]\<rparr> = 80900"
proof -
  have a: "stalk_obstruction 6 \<lparr>node_id = 0, resources = [1000, 1024000, 100, 1000, 10240, 1000],
        allocated = [900, 900000, 80, 800, 8000, 800]\<rparr> = 18446744073709427516"
    by code_simp
  have b: "select_cpu_scan 6 \<lparr>cpu_stalks = [\<lparr>node_id = 0, resources = [1000, 1024000, 100, 1000, 10240, 1000],
        allocated = [900, 900000, 80, 800, 8000, 800]\<rparr>],
        h2_cohomology = \<lparr>dimension = 0, computed_at = 0, valid = False\<rparr>\<rparr> [0] 0
       = (0, 18446744073709427516)"
    by code_simp
  have c: "obstruction_spec 6 \<lparr>node_id = 0, resources = [1000, 1024000, 100, 1000, 10240, 1000],
        allocated = [900, 900000, 80, 800, 8000, 800]\<rparr> = 80900"
    by (simp add: obstruction_spec_def upt_rec)
  show ?thesis
    by (rule conjI [OF a conjI [OF b c]])
qed

text \<open>
  Claim C2. On an initialised engine, for \<open>k = 3\<close> and \<open>v = 5\<close> (below the product of
  the first three primes) \<open>crt_decompose\<close> yields the residues \<open>[5, 5, 5]\<close>, and
  \<open>crt_reconstruct\<close> of them returns \<open>3898159582998081785\<close>, not \<open>5\<close>: the product of
  three primes near \<open>2^31\<close> is formed in a \<open>u64\<close> and wraps. With \<open>k = 2\<close> the same
  value comes back.
\<close>

theorem crt_round_trip_fails_at_three_primes:
  "symmetrix_galois_init True True 2305843009213693951
     = Inr \<lparr>prime = 2305843009213693951, crt_primes = symmetrix_crt_primes, num_crt_primes = 8,
         power_cache = replicate 1024 \<lparr>val = 0, modulus = 2305843009213693951\<rparr>, cache_size = 1024\<rparr>
   \<and> (5 :: nat) < 2147483647 * 2147483629 * 2147483587
   \<and> symmetrix_crt_decompose
        \<lparr>prime = 2305843009213693951, crt_primes = symmetrix_crt_primes, num_crt_primes = 8,
         power_cache = replicate 1024 \<lparr>val = 0, modulus = 2305843009213693951\<rparr>, cache_size = 1024\<rparr>
        5 [0, 0, 0] 3 = (Inr (), [5, 5, 5])
   \<and> symmetrix_crt_reconstruct
        \<lparr>prime = 2305843009213693951, crt_primes = symmetrix_crt_primes, num_crt_primes = 8,
         power_cache = replicate 1024 \<lparr>val = 0, modulus = 2305843009213693951\<rparr>, cache_size = 1024\<rparr>
        [5, 5, 5] 3 = Inr 3898159582998081785
   \<and> symmetrix_crt_reconstruct
        \<lparr>prime = 2305843009213693951, crt_primes = symmetrix_crt_primes, num_crt_primes = 8,
         power_cache = replicate 1024 \<lparr>val = 0, modulus = 2305843009213693951\<rparr>, cache_size = 1024\<rparr>
        [5, 5] 2 = Inr 5"
proof -
  have i: "symmetrix_galois_init True True 2305843009213693951
     = Inr \<lparr>prime = 2305843009213693951, crt_primes = symmetrix_crt_primes, num_crt_primes = 8,
         power_cache = replicate 1024 \<lparr>val = 0, modulus = 2305843009213693951\<rparr>, cache_size = 1024\<rparr>"
    by (rule galois_init_ok)
  have n: "(5 :: nat) < 2147483647 * 2147483629 * 2147483587"
    by simp
  have d: "symmetrix_crt_decompose
        \<lparr>prime = 2305843009213693951, crt_primes = symmetrix_crt_primes, num_crt_primes = 8,
         power_cache = replicate 1024 \<lparr>val = 0, modulus = 2305843009213693951\<rparr>, cache_size = 1024\<rparr>
        5 [0, 0, 0] 3 = (Inr (), [5, 5, 5])"
    by code_simp
  have r3: "symmetrix_crt_reconstruct
        \<lparr>prime = 2305843009213693951, crt_primes = symmetrix_crt_primes, num_crt_primes = 8,
         power_cache = replicate 1024 \<lparr>val = 0, modulus = 2305843009213693951\<rparr>, cache_size = 1024\<rparr>
        [5, 5, 5] 3 = Inr 3898159582998081785"
    by code_simp
  have r2: "symmetrix_crt_reconstruct
        \<lparr>prime = 2305843009213693951, crt_primes = symmetrix_crt_primes, num_crt_primes = 8,
         power_cache = replicate 1024 \<lparr>val = 0, modulus = 2305843009213693951\<rparr>, cache_size = 1024\<rparr>
        [5, 5] 2 = Inr 5"
    by code_simp
  show ?thesis
    by (rule conjI [OF i conjI [OF n conjI [OF d conjI [OF r3 r2]]]])
qed

end
